theory Spec2Isabelle
  imports Main "HOL-Library.Monad_Syntax" "HOL-Library.Multiset"
begin

section \<open>The hash map of \<^verbatim>\<open>src/hash_map.h\<close>\<close>

text \<open>
  \<^verbatim>\<open>HashMap<KeyType, ValueType, Hash>\<close> is an open-addressing table with Robin Hood
  displacement. The model is a record of the private members of the class; every member
  function takes the table and returns the new one.

  \<^item> \<^verbatim>\<open>std::size_t\<close> is modelled by \<open>nat\<close>. The products \<^verbatim>\<open>element_count_ * 100\<close>,
    \<^verbatim>\<open>load_factor * size\<close> and \<^verbatim>\<open>new_size *= 4\<close> wrap only for tables of more than
    \<open>2^64 div 100\<close> slots, which cannot be allocated.
  \<^item> \<^verbatim>\<open>KeyType()\<close> and \<^verbatim>\<open>ValueType()\<close> are \<open>default\<close> of the class of that name.
  \<^item> A name that ends in an underscore is not an Isabelle identifier: the member
    \<^verbatim>\<open>size_\<close> is the field \<open>size_m\<close>, and so on. The public members whose names are
    HOL constants or keywords carry the suffix \<open>_hm\<close> (\<open>insert_hm\<close>, \<open>find_hm\<close>,
    \<open>size_hm\<close>, \<open>empty_hm\<close>, \<open>begin_hm\<close>, \<open>end_hm\<close>).
  \<^item> \<^verbatim>\<open>hash_\<close> is a field of the record: any function from keys to \<open>nat\<close>.
  \<^item> A loop that need not end is a \<^theory_text>\<open>partial_function (option)\<close>: \<open>None\<close> is
    "does not return". Every function that runs such a loop returns an option.
  \<^item> Reading or writing a vector out of its range is undefined in C++. The indices the code
    uses are below \<^verbatim>\<open>size_\<close> (a hash modulo \<^verbatim>\<open>size_\<close>, advanced with wrap-around) or come
    from \<^verbatim>\<open>element_positions_\<close>; the predicate \<open>wf_struct\<close> below keeps the vectors at
    length \<^verbatim>\<open>size_\<close> and the entries of \<^verbatim>\<open>element_positions_\<close> below it, and the theorems
    are stated for the tables that the public interface produces, which satisfy it.
  \<^item> \<^verbatim>\<open>std::move(data_[i])\<close> leaves \<^verbatim>\<open>data_[i]\<close> in a moved-from state. The model leaves it
    as it was: the slot is free from then on (or the vector is replaced by \<^verbatim>\<open>Init\<close>), and
    no function reads the element of a free slot.
\<close>

instantiation nat :: default
begin
definition default_nat :: nat where "default_nat = 0"
instance ..
end

instantiation int :: default
begin
definition default_int :: int where "default_int = 0"
instance ..
end

record ('k, 'v) hash_map =
  hash_m :: "'k \<Rightarrow> nat"
  size_m :: nat
  element_count_m :: nat
  data_m :: "('k \<times> 'v) list"
  psl_m :: "nat list"
  free_places_m :: "bool list"
  index_in_element_positions_m :: "nat list"
  element_positions_m :: "nat list"

definition DEFAULT_SIZE :: nat where "DEFAULT_SIZE = 64"
definition MAX_LOAD_FACTOR :: nat where "MAX_LOAD_FACTOR = 80"
definition MAX_LOAD_FACTOR_ON_REBUILD :: nat where "MAX_LOAD_FACTOR_ON_REBUILD = 50"
definition SIZE_INCREASING_ON_REBUILD :: nat where "SIZE_INCREASING_ON_REBUILD = 4"

datatype error = NotFoundError

subsection \<open>Private member functions\<close>

definition Init :: "('k::default, 'v::default) hash_map \<Rightarrow> nat \<Rightarrow> ('k, 'v) hash_map" where
  "Init m n = m\<lparr>size_m := n, element_count_m := 0,
     data_m := replicate n (default, default),
     psl_m := replicate n 0,
     free_places_m := replicate n True,
     index_in_element_positions_m := replicate n 0,
     element_positions_m := []\<rparr>"

text \<open>\<^verbatim>\<open>++i; if (i == size_) i = 0;\<close> is written four times in the source.\<close>

definition advance :: "nat \<Rightarrow> nat \<Rightarrow> nat" where
  "advance n i = (if i + 1 = n then 0 else i + 1)"

partial_function (option) GetKeyIndex_loop ::
  "('k, 'v) hash_map \<Rightarrow> 'k \<Rightarrow> nat \<Rightarrow> nat option" where
  "GetKeyIndex_loop m key i =
     (if \<not> free_places_m m ! i then
        (if fst (data_m m ! i) = key then Some i
         else GetKeyIndex_loop m key (advance (size_m m) i))
      else Some i)"

definition GetKeyIndex :: "('k, 'v) hash_map \<Rightarrow> 'k \<Rightarrow> nat option" where
  "GetKeyIndex m key = GetKeyIndex_loop m key (hash_m m key mod size_m m)"

definition InsertByIndex ::
  "('k, 'v) hash_map \<Rightarrow> nat \<Rightarrow> 'k \<Rightarrow> 'v \<Rightarrow> nat \<Rightarrow> ('k, 'v) hash_map" where
  "InsertByIndex m i key val psl =
     (if free_places_m m ! i then
        m\<lparr>element_count_m := element_count_m m + 1,
          index_in_element_positions_m :=
            (index_in_element_positions_m m)[i := length (element_positions_m m)],
          element_positions_m := element_positions_m m @ [i],
          free_places_m := (free_places_m m)[i := False],
          data_m := (data_m m)[i := (key, val)],
          psl_m := (psl_m m)[i := psl]\<rparr>
      else m\<lparr>data_m := (data_m m)[i := (fst (data_m m ! i), val)]\<rparr>)"

definition IsCoolLoad :: "('k, 'v) hash_map \<Rightarrow> nat \<Rightarrow> nat \<Rightarrow> bool" where
  "IsCoolLoad m sz load_factor = (element_count_m m * 100 < load_factor * sz)"

text \<open>The \<^verbatim>\<open>do ... while\<close> of \<^verbatim>\<open>Rebuild\<close> that chooses the new size.\<close>

partial_function (option) Rebuild_new_size :: "('k, 'v) hash_map \<Rightarrow> nat \<Rightarrow> nat option" where
  "Rebuild_new_size m new_size =
     (let new_size = new_size * SIZE_INCREASING_ON_REBUILD in
      if \<not> IsCoolLoad m new_size MAX_LOAD_FACTOR_ON_REBUILD then Rebuild_new_size m new_size
      else Some new_size)"

text \<open>
  The \<^verbatim>\<open>while\<close> of \<^verbatim>\<open>RobinHoodGetKeyIndex\<close>. \<^verbatim>\<open>answer_i\<close> is a \<^verbatim>\<open>ssize_t\<close> that is
  \<open>-1\<close> until it is set: an option. The loop returns the locals it leaves behind.
\<close>

partial_function (option) RobinHood_loop ::
  "('k, 'v) hash_map \<Rightarrow> 'k \<times> 'v \<Rightarrow> nat \<Rightarrow> nat option \<Rightarrow> nat \<Rightarrow>
     (('k, 'v) hash_map \<times> ('k \<times> 'v) \<times> nat \<times> nat option \<times> nat) option" where
  "RobinHood_loop m to_insert current_psl answer_i i =
     (if \<not> free_places_m m ! i then
        (if psl_m m ! i < current_psl then
           RobinHood_loop
             (m\<lparr>data_m := (data_m m)[i := to_insert], psl_m := (psl_m m)[i := current_psl]\<rparr>)
             (data_m m ! i) (psl_m m ! i + 1)
             (if answer_i = None then Some i else answer_i)
             (advance (size_m m) i)
         else RobinHood_loop m to_insert (current_psl + 1) answer_i (advance (size_m m) i))
      else Some (m, to_insert, current_psl, answer_i, i))"

definition RobinHoodGetKeyIndex ::
  "('k, 'v) hash_map \<Rightarrow> 'k \<Rightarrow> 'v \<Rightarrow> (('k, 'v) hash_map \<times> nat) option" where
  "RobinHoodGetKeyIndex m key val =
     do {
       (m', to_insert, current_psl, answer_i, i) \<leftarrow>
          RobinHood_loop m (key, val) 1 None (hash_m m key mod size_m m);
       let answer_i = (case answer_i of None \<Rightarrow> i | Some a \<Rightarrow> a);
       Some (InsertByIndex m' i (fst to_insert) (snd to_insert) current_psl, answer_i)
     }"

text \<open>Running a queue of elements through an insertion, front first.\<close>

primrec insert_queue ::
  "('s \<Rightarrow> 'k \<Rightarrow> 'v \<Rightarrow> ('s \<times> nat) option) \<Rightarrow> ('k \<times> 'v) list \<Rightarrow> 's \<Rightarrow> 's option" where
  "insert_queue ins [] m = Some m"
| "insert_queue ins (e # elements) m =
     Option.bind (ins m (fst e) (snd e)) (\<lambda>r. insert_queue ins elements (fst r))"

lemma insert_queue_mono [partial_function_mono]:
  assumes "\<And>m k v. mono_option (\<lambda>f. ins f m k v)"
  shows "mono_option (\<lambda>f. insert_queue (ins f) elements m)"
proof (induction elements arbitrary: m)
  case Nil
  show ?case by (simp add: option.const_mono)
next
  case (Cons e elements)
  show ?case
    unfolding insert_queue.simps
    by (rule bind_mono) (rule assms, rule Cons.IH)
qed

text \<open>
  \<^verbatim>\<open>InsertElement\<close> and \<^verbatim>\<open>Rebuild\<close> call each other. \<open>InsertElement\<close> is defined with the
  body of \<^verbatim>\<open>Rebuild\<close> in the place of the call; \<open>Rebuild\<close> follows, and
  \<open>InsertElement_Rebuild\<close> gives \<open>InsertElement\<close> the shape it has in the source.
\<close>

partial_function (option) InsertElement ::
  "('k::default, 'v::default) hash_map \<Rightarrow> 'k \<Rightarrow> 'v \<Rightarrow> (('k, 'v) hash_map \<times> nat) option" where
  "InsertElement m key val =
     (if \<not> IsCoolLoad m (size_m m) MAX_LOAD_FACTOR then
        Option.bind
          (Option.bind (Rebuild_new_size m (size_m m)) (\<lambda>new_size.
             insert_queue InsertElement
               (map (\<lambda>i. data_m m ! i) (element_positions_m m)) (Init m new_size)))
          (\<lambda>m'. RobinHoodGetKeyIndex m' key val)
      else RobinHoodGetKeyIndex m key val)"

definition Rebuild :: "('k::default, 'v::default) hash_map \<Rightarrow> ('k, 'v) hash_map option" where
  "Rebuild m =
     do {
       new_size \<leftarrow> Rebuild_new_size m (size_m m);
       let elements = map (\<lambda>i. data_m m ! i) (element_positions_m m);
       insert_queue InsertElement elements (Init m new_size)
     }"

definition SwapInElementPositions ::
  "('k, 'v) hash_map \<Rightarrow> nat \<Rightarrow> nat \<Rightarrow> ('k, 'v) hash_map" where
  "SwapInElementPositions m i j =
     (let a = element_positions_m m ! i; b = element_positions_m m ! j;
          ix = index_in_element_positions_m m; ps = element_positions_m m
      in m\<lparr>index_in_element_positions_m := ix[a := ix ! b, b := ix ! a],
           element_positions_m := ps[i := ps ! j, j := ps ! i]\<rparr>)"

text \<open>
  \<^verbatim>\<open>DeleteElementByPosition\<close> up to its \<^verbatim>\<open>if (need_fix)\<close>: this is all that the call
  \<^verbatim>\<open>DeleteElementByPosition(i, false)\<close> of \<^verbatim>\<open>FixPosition\<close> runs. \<^verbatim>\<open>--back\<close> and
  \<^verbatim>\<open>--element_count_\<close> are reached with a non-empty \<^verbatim>\<open>element_positions_\<close> only.
\<close>

definition DeleteElementByPosition_unfixed ::
  "('k, 'v) hash_map \<Rightarrow> nat \<Rightarrow> ('k, 'v) hash_map" where
  "DeleteElementByPosition_unfixed m position =
     (let i = index_in_element_positions_m m ! position;
          m = m\<lparr>free_places_m := (free_places_m m)[position := True]\<rparr>;
          back = length (element_positions_m m) - 1;
          m = SwapInElementPositions m i back;
          m = m\<lparr>element_positions_m := butlast (element_positions_m m)\<rparr>
      in m\<lparr>element_count_m := element_count_m m - 1\<rparr>)"

text \<open>The first \<^verbatim>\<open>while\<close> of \<^verbatim>\<open>FixPosition\<close>: it returns the table and the queue.\<close>

partial_function (option) FixPosition_loop ::
  "('k, 'v) hash_map \<Rightarrow> nat \<Rightarrow> ('k \<times> 'v) list \<Rightarrow> (('k, 'v) hash_map \<times> ('k \<times> 'v) list) option"
  where
  "FixPosition_loop m i elements =
     (if \<not> free_places_m m ! i then
        FixPosition_loop (DeleteElementByPosition_unfixed m i) (advance (size_m m) i)
          (elements @ [data_m m ! i])
      else Some (m, elements))"

definition FixPosition ::
  "('k::default, 'v::default) hash_map \<Rightarrow> nat \<Rightarrow> ('k, 'v) hash_map option" where
  "FixPosition m position =
     do {
       (m', elements) \<leftarrow> FixPosition_loop m (advance (size_m m) position) [];
       insert_queue InsertElement elements m'
     }"

definition DeleteElementByPosition ::
  "('k::default, 'v::default) hash_map \<Rightarrow> nat \<Rightarrow> bool \<Rightarrow> ('k, 'v) hash_map option" where
  "DeleteElementByPosition m position need_fix =
     (let m' = DeleteElementByPosition_unfixed m position
      in if need_fix then FixPosition m' position else Some m')"

definition DeleteElementByIndex ::
  "('k::default, 'v::default) hash_map \<Rightarrow> nat \<Rightarrow> ('k, 'v) hash_map option" where
  "DeleteElementByIndex m i = DeleteElementByPosition m (element_positions_m m ! i) True"

subsection \<open>Public member functions\<close>

text \<open>
  An iterator is its \<^verbatim>\<open>index_\<close> into \<^verbatim>\<open>element_positions_\<close>; \<^verbatim>\<open>operator==\<close> compares
  nothing else. \<open>deref\<close> is \<^verbatim>\<open>operator*\<close>.
\<close>

definition HashMap :: "('k \<Rightarrow> nat) \<Rightarrow> ('k::default, 'v::default) hash_map" where
  "HashMap hash =
     Init \<lparr>hash_m = hash, size_m = 0, element_count_m = 0, data_m = [], psl_m = [],
           free_places_m = [], index_in_element_positions_m = [], element_positions_m = []\<rparr>
       DEFAULT_SIZE"

text \<open>The constructors from a range and from an initializer list run the same loop.\<close>

definition HashMap_range ::
  "('k \<times> 'v) list \<Rightarrow> ('k \<Rightarrow> nat) \<Rightarrow> ('k::default, 'v::default) hash_map option" where
  "HashMap_range elements hash = insert_queue InsertElement elements (HashMap hash)"

definition size_hm :: "('k, 'v) hash_map \<Rightarrow> nat" where
  "size_hm m = element_count_m m"

definition empty_hm :: "('k, 'v) hash_map \<Rightarrow> bool" where
  "empty_hm m = (element_count_m m = 0)"

definition insert_hm ::
  "('k::default, 'v::default) hash_map \<Rightarrow> 'k \<times> 'v \<Rightarrow> ('k, 'v) hash_map option" where
  "insert_hm m element =
     do {
       i \<leftarrow> GetKeyIndex m (fst element);
       if \<not> free_places_m m ! i then Some m
       else map_option fst (InsertElement m (fst element) (snd element))
     }"

definition erase :: "('k::default, 'v::default) hash_map \<Rightarrow> 'k \<Rightarrow> ('k, 'v) hash_map option" where
  "erase m key =
     do {
       i \<leftarrow> GetKeyIndex m key;
       if free_places_m m ! i then Some m
       else DeleteElementByPosition m i True
     }"

definition begin_hm :: "('k, 'v) hash_map \<Rightarrow> nat" where
  "begin_hm m = 0"

definition end_hm :: "('k, 'v) hash_map \<Rightarrow> nat" where
  "end_hm m = length (element_positions_m m)"

definition deref :: "('k, 'v) hash_map \<Rightarrow> nat \<Rightarrow> 'k \<times> 'v" where
  "deref m it = data_m m ! (element_positions_m m ! it)"

definition find_hm :: "('k, 'v) hash_map \<Rightarrow> 'k \<Rightarrow> nat option" where
  "find_hm m key =
     do {
       i \<leftarrow> GetKeyIndex m key;
       if free_places_m m ! i then Some (end_hm m)
       else Some (index_in_element_positions_m m ! i)
     }"

text \<open>
  \<^verbatim>\<open>operator[]\<close> returns a reference to \<^verbatim>\<open>data_[i].second\<close>: the model returns the
  table and \<open>i\<close>. \<open>assign\<close> is a write through such a reference, or through
  \<^verbatim>\<open>it->second\<close> of an iterator.
\<close>

definition index_op ::
  "('k::default, 'v::default) hash_map \<Rightarrow> 'k \<Rightarrow> (('k, 'v) hash_map \<times> nat) option" where
  "index_op m key =
     do {
       i \<leftarrow> GetKeyIndex m key;
       if free_places_m m ! i then InsertElement m key default
       else Some (m, i)
     }"

definition assign :: "('k, 'v) hash_map \<Rightarrow> nat \<Rightarrow> 'v \<Rightarrow> ('k, 'v) hash_map" where
  "assign m i val = m\<lparr>data_m := (data_m m)[i := (fst (data_m m ! i), val)]\<rparr>"

definition at :: "('k, 'v) hash_map \<Rightarrow> 'k \<Rightarrow> (error + 'v) option" where
  "at m key =
     do {
       i \<leftarrow> GetKeyIndex m key;
       if free_places_m m ! i then Some (Inl NotFoundError)
       else Some (Inr (snd (data_m m ! i)))
     }"

partial_function (option) clear ::
  "('k::default, 'v::default) hash_map \<Rightarrow> ('k, 'v) hash_map option" where
  "clear m =
     (if element_positions_m m \<noteq> [] then Option.bind (DeleteElementByIndex m 0) clear
      else Some m)"

text \<open>The elements in the order in which \<^verbatim>\<open>begin()\<close> to \<^verbatim>\<open>end()\<close> yields them.\<close>

definition iterate :: "('k, 'v) hash_map \<Rightarrow> ('k \<times> 'v) list" where
  "iterate m = map (deref m) [begin_hm m ..< end_hm m]"

declare GetKeyIndex_loop.simps [code]
declare Rebuild_new_size.simps [code]
declare RobinHood_loop.simps [code]
declare FixPosition_loop.simps [code]
declare clear.simps [code]

lemma InsertElement_Rebuild [code]:
  "InsertElement m key val =
     (if \<not> IsCoolLoad m (size_m m) MAX_LOAD_FACTOR then
        Option.bind (Rebuild m) (\<lambda>m'. RobinHoodGetKeyIndex m' key val)
      else RobinHoodGetKeyIndex m key val)"
  by (subst InsertElement.simps) (simp add: Rebuild_def)

section \<open>Well-formed tables\<close>

text \<open>
  The predicates the theorems are stated with. None of them is code of the repository.

  \<^item> \<open>wf_struct\<close>: the vectors have length \<^verbatim>\<open>size_\<close>, \<^verbatim>\<open>element_positions_\<close> lists
    the occupied slots once each, \<^verbatim>\<open>index_in_element_positions_\<close> is its inverse and
    \<^verbatim>\<open>element_count_\<close> its length.
  \<^item> \<open>load_ok\<close>: the load that the test of \<^verbatim>\<open>InsertElement\<close> maintains.
  \<^item> \<open>path F n a d s\<close>: the \<open>d\<close> slots from \<open>a\<close> on are occupied and the next one is
    \<open>s\<close>. \<open>probe_ok\<close>: every stored key is reached from its home slot along occupied
    slots, so that \<^verbatim>\<open>GetKeyIndex\<close> cannot stop at a free slot before it.
  \<^item> \<open>distinct_keys\<close>: no key is stored twice. \<open>keys\<close>: the keys that are stored.
  \<^item> \<open>reachable\<close>: the tables that the three constructors and the public member
    functions produce, a write to the value of an occupied slot (through the reference
    that \<^verbatim>\<open>operator[]\<close> returns, or through an iterator) among them; \<open>insert_all\<close> is a
    caller that inserts the elements of a list in turn.
  \<^item> \<open>found m key val\<close>: \<^verbatim>\<open>find\<close> returns an iterator before \<^verbatim>\<open>end()\<close> that points to
    \<open>(key, val)\<close>, and \<^verbatim>\<open>at\<close> returns \<open>val\<close>.
  \<^item> \<open>dist n i f\<close>: the number of steps of \<open>advance\<close> from slot \<open>i\<close> to slot \<open>f\<close>, the
    measure of the three probing loops. \<open>same_frame\<close> and \<open>carried_ok\<close> are the invariant
    of the loop of \<^verbatim>\<open>RobinHoodGetKeyIndex\<close>, \<open>weak_probe\<close> that of the first loop of
    \<^verbatim>\<open>FixPosition\<close>.
\<close>

definition dist :: "nat \<Rightarrow> nat \<Rightarrow> nat \<Rightarrow> nat" where
  "dist n i f = (if i \<le> f then f - i else f + n - i)"

fun path :: "bool list \<Rightarrow> nat \<Rightarrow> nat \<Rightarrow> nat \<Rightarrow> nat \<Rightarrow> bool" where
  "path F n a 0 s = (a = s)"
| "path F n a (Suc d) s = (\<not> F ! a \<and> path F n (advance n a) d s)"

definition home :: "('k, 'v) hash_map \<Rightarrow> 'k \<Rightarrow> nat" where
  "home m key = hash_m m key mod size_m m"

definition wf_struct :: "('k, 'v) hash_map \<Rightarrow> bool" where
  "wf_struct m \<longleftrightarrow>
     DEFAULT_SIZE \<le> size_m m \<and>
     length (data_m m) = size_m m \<and> length (psl_m m) = size_m m \<and>
     length (free_places_m m) = size_m m \<and>
     length (index_in_element_positions_m m) = size_m m \<and>
     element_count_m m = length (element_positions_m m) \<and>
     distinct (element_positions_m m) \<and>
     set (element_positions_m m) = {s. s < size_m m \<and> \<not> free_places_m m ! s} \<and>
     (\<forall>j < length (element_positions_m m).
        index_in_element_positions_m m ! (element_positions_m m ! j) = j)"

definition load_ok :: "('k, 'v) hash_map \<Rightarrow> bool" where
  "load_ok m \<longleftrightarrow> element_count_m m * 100 < MAX_LOAD_FACTOR * size_m m + 100"

definition probe_ok :: "('k, 'v) hash_map \<Rightarrow> bool" where
  "probe_ok m \<longleftrightarrow>
     (\<forall>s < size_m m. \<not> free_places_m m ! s \<longrightarrow>
        (\<exists>d. path (free_places_m m) (size_m m) (home m (fst (data_m m ! s))) d s))"

definition table_ok :: "('k, 'v) hash_map \<Rightarrow> bool" where
  "table_ok m \<longleftrightarrow> wf_struct m \<and> load_ok m \<and> probe_ok m"

definition distinct_keys :: "('k, 'v) hash_map \<Rightarrow> bool" where
  "distinct_keys m \<longleftrightarrow> distinct (map fst (iterate m))"

definition same_frame :: "('k, 'v) hash_map \<Rightarrow> ('k, 'v) hash_map \<Rightarrow> bool" where
  "same_frame m m' \<longleftrightarrow>
     hash_m m' = hash_m m \<and> size_m m' = size_m m \<and> element_count_m m' = element_count_m m \<and>
     free_places_m m' = free_places_m m \<and>
     index_in_element_positions_m m' = index_in_element_positions_m m \<and>
     element_positions_m m' = element_positions_m m \<and>
     length (data_m m') = length (data_m m) \<and> length (psl_m m') = length (psl_m m)"

definition carried_ok ::
  "('k, 'v) hash_map \<Rightarrow> ('k \<times> 'v) multiset \<Rightarrow> ('k, 'v) hash_map \<Rightarrow> 'k \<times> 'v \<Rightarrow> nat \<Rightarrow> bool"
  where
  "carried_ok m0 M m to_insert i \<longleftrightarrow>
     same_frame m0 m \<and> mset (iterate m) + {#to_insert#} = M \<and> probe_ok m \<and>
     (\<exists>d. path (free_places_m m) (size_m m) (home m (fst to_insert)) d i)"

definition weak_probe :: "('k, 'v) hash_map \<Rightarrow> nat \<Rightarrow> bool" where
  "weak_probe m i \<longleftrightarrow>
     (\<forall>s < size_m m. \<not> free_places_m m ! s \<longrightarrow>
        (\<exists>d. path (free_places_m m) (size_m m) (home m (fst (data_m m ! s))) d s) \<or>
        (\<exists>d. path (free_places_m m) (size_m m) i d s))"

inductive reachable :: "('k::default, 'v::default) hash_map \<Rightarrow> bool" where
  default: "reachable (HashMap hash)"
| range: "HashMap_range elements hash = Some m \<Longrightarrow> reachable m"
| insert: "reachable m \<Longrightarrow> insert_hm m element = Some m' \<Longrightarrow> reachable m'"
| erase: "reachable m \<Longrightarrow> erase m key = Some m' \<Longrightarrow> reachable m'"
| index: "reachable m \<Longrightarrow> index_op m key = Some (m', i) \<Longrightarrow> reachable m'"
| assign: "reachable m \<Longrightarrow> i < size_m m \<Longrightarrow> \<not> free_places_m m ! i \<Longrightarrow>
     reachable (assign m i val)"
| clear: "reachable m \<Longrightarrow> clear m = Some m' \<Longrightarrow> reachable m'"

primrec insert_all ::
  "('k::default, 'v::default) hash_map \<Rightarrow> ('k \<times> 'v) list \<Rightarrow> ('k, 'v) hash_map option" where
  "insert_all m [] = Some m"
| "insert_all m (e # es) = Option.bind (insert_hm m e) (\<lambda>m'. insert_all m' es)"

definition keys :: "('k, 'v) hash_map \<Rightarrow> 'k set" where
  "keys m = fst ` set (iterate m)"

definition found :: "('k, 'v) hash_map \<Rightarrow> 'k \<Rightarrow> 'v \<Rightarrow> bool" where
  "found m key val \<longleftrightarrow>
     (\<exists>it. find_hm m key = Some it \<and> it < end_hm m \<and> deref m it = (key, val)) \<and>
     at m key = Some (Inr val)"

section \<open>Lemmas\<close>

subsection \<open>Walking the slots, and \<^verbatim>\<open>GetKeyIndex\<close>\<close>

lemma advance_less: "i < n \<Longrightarrow> advance n i < n"
  by (auto simp: advance_def)

lemma dist_advance: "i < n \<Longrightarrow> f < n \<Longrightarrow> i \<noteq> f \<Longrightarrow> dist n (advance n i) f < dist n i f"
  by (auto simp: advance_def dist_def)

lemma advance_induct [consumes 2, case_names free step]:
  assumes "f < n" "i < n"
    and "P f"
    and "\<And>j. j < n \<Longrightarrow> j \<noteq> f \<Longrightarrow> P (advance n j) \<Longrightarrow> P j"
  shows "P i"
  using assms(2)
proof (induction "dist n i f" arbitrary: i rule: less_induct)
  case less
  show ?case
  proof (cases "i = f")
    case True
    then show ?thesis using assms(3) by simp
  next
    case False
    have "P (advance n i)"
      using less.prems False assms(1) by (intro less.hyps dist_advance advance_less)
    then show ?thesis using assms(4) less.prems False by blast
  qed
qed

lemma iterate_eq: "iterate m = map (\<lambda>s. data_m m ! s) (element_positions_m m)"
  by (rule nth_equalityI) (simp_all add: iterate_def deref_def begin_hm_def end_hm_def)

lemma home_less: "0 < size_m m \<Longrightarrow> home m k < size_m m"
  by (simp add: home_def)

lemma wf_struct_size_pos: "wf_struct m \<Longrightarrow> 0 < size_m m"
  by (simp add: wf_struct_def DEFAULT_SIZE_def)

lemma load_ok_count_less: "wf_struct m \<Longrightarrow> load_ok m \<Longrightarrow> element_count_m m < size_m m"
  by (simp add: wf_struct_def load_ok_def DEFAULT_SIZE_def MAX_LOAD_FACTOR_def)

lemma free_slot_exists:
  assumes "wf_struct m" "element_count_m m < size_m m"
  shows "\<exists>f < size_m m. free_places_m m ! f"
proof (rule ccontr)
  assume "\<not> ?thesis"
  then have "{s. s < size_m m \<and> \<not> free_places_m m ! s} = {..<size_m m}" by auto
  then have "set (element_positions_m m) = {..<size_m m}"
    using assms(1) by (simp add: wf_struct_def)
  then have "card (set (element_positions_m m)) = size_m m" by simp
  moreover have "distinct (element_positions_m m)"
    "element_count_m m = length (element_positions_m m)"
    using assms(1) by (simp_all add: wf_struct_def)
  then have "card (set (element_positions_m m)) = element_count_m m"
    by (simp add: distinct_card)
  ultimately show False using assms(2) by simp
qed

lemma occupied_iterate:
  "wf_struct m \<Longrightarrow> s < size_m m \<Longrightarrow> \<not> free_places_m m ! s \<Longrightarrow> data_m m ! s \<in> set (iterate m)"
  by (auto simp: iterate_eq wf_struct_def)

lemma iterate_occupied:
  "wf_struct m \<Longrightarrow> e \<in> set (iterate m) \<Longrightarrow>
     \<exists>s < size_m m. \<not> free_places_m m ! s \<and> data_m m ! s = e"
  by (auto simp: iterate_eq wf_struct_def)

lemma GetKeyIndex_loop_returns:
  assumes "f < size_m m" "free_places_m m ! f" "i < size_m m"
  shows "\<exists>r. GetKeyIndex_loop m key i = Some r \<and> r < size_m m \<and>
              (free_places_m m ! r \<or> fst (data_m m ! r) = key)"
  using assms(1,3)
proof (induction rule: advance_induct)
  case free
  show ?case using assms(1,2) by (subst GetKeyIndex_loop.simps) simp
next
  case (step j)
  then show ?case by (subst GetKeyIndex_loop.simps) auto
qed

lemma GetKeyIndex_loop_finds:
  assumes "path (free_places_m m) (size_m m) i d s" "\<not> free_places_m m ! s"
    "fst (data_m m ! s) = key" "i < size_m m"
  shows "\<exists>r. GetKeyIndex_loop m key i = Some r \<and> r < size_m m \<and>
              \<not> free_places_m m ! r \<and> fst (data_m m ! r) = key"
  using assms
proof (induction d arbitrary: i)
  case 0
  then show ?case by (subst GetKeyIndex_loop.simps) simp
next
  case (Suc d)
  show ?case
  proof (cases "fst (data_m m ! i) = key")
    case True
    then show ?thesis using Suc.prems by (subst GetKeyIndex_loop.simps) simp
  next
    case False
    have "\<exists>r. GetKeyIndex_loop m key (advance (size_m m) i) = Some r \<and> r < size_m m \<and>
              \<not> free_places_m m ! r \<and> fst (data_m m ! r) = key"
      using Suc.prems by (intro Suc.IH) (auto simp: advance_less)
    then show ?thesis using False Suc.prems by (subst GetKeyIndex_loop.simps) simp
  qed
qed

text \<open>What \<open>GetKeyIndex\<close> returns in a well-formed table.\<close>

lemma GetKeyIndex_present:
  assumes "wf_struct m" "probe_ok m" "key \<in> fst ` set (iterate m)"
  shows "\<exists>r. GetKeyIndex m key = Some r \<and> r < size_m m \<and>
              \<not> free_places_m m ! r \<and> fst (data_m m ! r) = key"
proof -
  from assms(1,3) obtain s where s: "s < size_m m" "\<not> free_places_m m ! s"
    "fst (data_m m ! s) = key"
    by (auto dest: iterate_occupied)
  with assms(2) obtain d where "path (free_places_m m) (size_m m) (home m key) d s"
    by (auto simp: probe_ok_def)
  then show ?thesis
    unfolding GetKeyIndex_def home_def[symmetric]
    using s assms(1) by (intro GetKeyIndex_loop_finds) (auto simp: home_less wf_struct_size_pos)
qed

lemma GetKeyIndex_absent:
  assumes "wf_struct m" "element_count_m m < size_m m" "key \<notin> fst ` set (iterate m)"
  shows "\<exists>r. GetKeyIndex m key = Some r \<and> r < size_m m \<and> free_places_m m ! r"
proof -
  obtain f where f: "f < size_m m" "free_places_m m ! f"
    using free_slot_exists[OF assms(1,2)] by blast
  have "home m key < size_m m" using assms(1) by (simp add: home_less wf_struct_size_pos)
  from GetKeyIndex_loop_returns[OF f this, of key]
  obtain r where r: "GetKeyIndex_loop m key (home m key) = Some r" "r < size_m m"
    "free_places_m m ! r \<or> fst (data_m m ! r) = key" by blast
  have "free_places_m m ! r"
  proof (rule ccontr)
    assume nf: "\<not> free_places_m m ! r"
    then have "data_m m ! r \<in> set (iterate m)" using assms(1) r(2) by (rule_tac occupied_iterate)
    moreover have "fst (data_m m ! r) = key" using r(3) nf by simp
    ultimately show False using assms(3) by force
  qed
  then show ?thesis using r by (simp add: GetKeyIndex_def home_def)
qed

lemma GetKeyIndex_total:
  assumes "wf_struct m" "element_count_m m < size_m m"
  shows "\<exists>r. GetKeyIndex m key = Some r \<and> r < size_m m \<and>
            (free_places_m m ! r \<or> fst (data_m m ! r) = key)"
proof -
  obtain f where f: "f < size_m m" "free_places_m m ! f"
    using free_slot_exists[OF assms(1,2)] by blast
  have "home m key < size_m m" using assms(1) by (simp add: home_less wf_struct_size_pos)
  from GetKeyIndex_loop_returns[OF f this, of key]
  show ?thesis by (simp add: GetKeyIndex_def home_def)
qed

subsection \<open>The loop of \<^verbatim>\<open>RobinHoodGetKeyIndex\<close>\<close>

lemma same_frame_refl: "same_frame m m"
  by (simp add: same_frame_def)

lemma same_frame_wf_struct: "same_frame m m' \<Longrightarrow> wf_struct m \<Longrightarrow> wf_struct m'"
  by (simp add: same_frame_def wf_struct_def)

lemma nth_update_if: "xs[i := x] ! j = (if i = j \<and> i < length xs then x else xs ! j)"
  by (cases "i < length xs") (auto simp: nth_list_update list_update_beyond not_less)

lemma path_extend: "path F n a d s \<Longrightarrow> \<not> F ! s \<Longrightarrow> path F n a (Suc d) (advance n s)"
  by (induction d arbitrary: a) auto

lemma path_mono: "path F n a d s \<Longrightarrow> path (F[i := False]) n a d s"
  by (induction d arbitrary: a) (auto simp: nth_update_if)

lemma mset_map_update:
  assumes "distinct xs" "i \<in> set xs" "i < length ds"
  shows "mset (map (\<lambda>s. ds[i := x] ! s) xs) + {#ds ! i#} = mset (map (\<lambda>s. ds ! s) xs) + {#x#}"
  using assms
proof (induction xs)
  case Nil
  then show ?case by simp
next
  case (Cons a xs)
  show ?case
  proof (cases "a = i")
    case True
    then have "i \<notin> set xs" using Cons.prems by simp
    then have "image_mset ((!) (ds[i := x])) (mset xs) = image_mset ((!) ds) (mset xs)"
      by (intro image_mset_cong) (auto simp: nth_update_if)
    then show ?thesis using True Cons.prems by simp
  next
    case False
    then have "mset (map (\<lambda>s. ds[i := x] ! s) xs) + {#ds ! i#} = mset (map (\<lambda>s. ds ! s) xs) + {#x#}"
      using Cons by simp
    then show ?thesis using False by (simp add: nth_update_if)
  qed
qed

lemma map_update_notin:
  "i \<notin> set xs \<Longrightarrow> map (\<lambda>s. ds[i := x] ! s) xs = map (\<lambda>s. ds ! s) xs"
  by (auto simp: nth_update_if)

lemma carried_ok_swap:
  assumes wf: "wf_struct m0" and c: "carried_ok m0 M m to_insert i"
    and i: "i < size_m m0" "\<not> free_places_m m0 ! i"
  shows "carried_ok m0 M
           (m\<lparr>data_m := (data_m m)[i := to_insert], psl_m := (psl_m m)[i := current_psl]\<rparr>)
           (data_m m ! i) (advance (size_m m0) i)"
proof -
  let ?m1 = "m\<lparr>data_m := (data_m m)[i := to_insert], psl_m := (psl_m m)[i := current_psl]\<rparr>"
  from c have sf: "same_frame m0 m" and M: "mset (iterate m) + {#to_insert#} = M"
    and p: "probe_ok m"
    and cp: "\<exists>d. path (free_places_m m) (size_m m) (home m (fst to_insert)) d i"
    by (simp_all add: carried_ok_def)
  have wfm: "wf_struct m" using sf wf by (rule same_frame_wf_struct)
  have eqs: "size_m m = size_m m0" "free_places_m m = free_places_m m0"
    using sf by (simp_all add: same_frame_def)
  have sf1: "same_frame m0 ?m1" using sf by (simp add: same_frame_def)
  have iin: "i \<in> set (element_positions_m m)" "distinct (element_positions_m m)"
    "i < length (data_m m)"
    using wfm i eqs by (simp_all add: wf_struct_def)
  have M1: "mset (iterate ?m1) + {#data_m m ! i#} = M"
    using mset_map_update[OF iin(2,1,3), of to_insert] M by (simp add: iterate_eq)
  have p1: "probe_ok ?m1"
    unfolding probe_ok_def
  proof (intro allI impI)
    fix s assume s: "s < size_m ?m1" "\<not> free_places_m ?m1 ! s"
    show "\<exists>d. path (free_places_m ?m1) (size_m ?m1) (home ?m1 (fst (data_m ?m1 ! s))) d s"
    proof (cases "s = i")
      case True
      then show ?thesis using cp iin(3) by (simp add: home_def)
    next
      case False
      then show ?thesis using p s by (simp add: probe_ok_def home_def)
    qed
  qed
  from p i eqs obtain d where "path (free_places_m m) (size_m m) (home m (fst (data_m m ! i))) d i"
    by (auto simp: probe_ok_def)
  then have "path (free_places_m m) (size_m m) (home m (fst (data_m m ! i))) (Suc d)
      (advance (size_m m) i)"
    using i eqs by (intro path_extend) simp_all
  then have "\<exists>d. path (free_places_m ?m1) (size_m ?m1) (home ?m1 (fst (data_m m ! i))) d
      (advance (size_m m0) i)"
    using eqs by (auto simp: home_def simp del: path.simps)
  then show ?thesis using sf1 M1 p1 by (simp add: carried_ok_def del: path.simps)
qed

lemma carried_ok_keep:
  assumes c: "carried_ok m0 M m to_insert i" and i: "\<not> free_places_m m0 ! i"
  shows "carried_ok m0 M m to_insert (advance (size_m m0) i)"
proof -
  from c have sf: "same_frame m0 m"
    and cp: "\<exists>d. path (free_places_m m) (size_m m) (home m (fst to_insert)) d i"
    by (simp_all add: carried_ok_def)
  have eqs: "size_m m = size_m m0" "free_places_m m = free_places_m m0"
    using sf by (simp_all add: same_frame_def)
  from cp obtain d where "path (free_places_m m) (size_m m) (home m (fst to_insert)) d i" ..
  then have "path (free_places_m m) (size_m m) (home m (fst to_insert)) (Suc d)
      (advance (size_m m) i)"
    using i eqs by (intro path_extend) simp_all
  then have "\<exists>d. path (free_places_m m) (size_m m) (home m (fst to_insert)) d
      (advance (size_m m0) i)"
    using eqs by (auto simp del: path.simps)
  then show ?thesis using c by (simp add: carried_ok_def del: path.simps)
qed

lemma RobinHood_loop_spec:
  assumes wf: "wf_struct m0" and f: "f < size_m m0" "free_places_m m0 ! f"
    and i: "i < size_m m0"
  shows "carried_ok m0 M m to_insert i \<Longrightarrow>
     \<exists>m' to_insert' current_psl' answer_i' i'.
        RobinHood_loop m to_insert current_psl answer_i i =
          Some (m', to_insert', current_psl', answer_i', i') \<and>
        carried_ok m0 M m' to_insert' i' \<and> i' < size_m m0 \<and> free_places_m m0 ! i'"
  using f(1) i
proof (induction arbitrary: m to_insert current_psl answer_i rule: advance_induct)
  case free
  have eqs: "size_m m = size_m m0" "free_places_m m = free_places_m m0"
    using free by (simp_all add: carried_ok_def same_frame_def)
  show ?case using f free eqs by (subst RobinHood_loop.simps) simp
next
  case (step j)
  have eqs: "size_m m = size_m m0" "free_places_m m = free_places_m m0"
    using step.prems by (simp_all add: carried_ok_def same_frame_def)
  show ?case
  proof (cases "free_places_m m0 ! j")
    case True
    then show ?thesis using step eqs by (subst RobinHood_loop.simps) simp
  next
    case occ: False
    show ?thesis
    proof (cases "psl_m m ! j < current_psl")
      case True
      have "carried_ok m0 M
           (m\<lparr>data_m := (data_m m)[j := to_insert], psl_m := (psl_m m)[j := current_psl]\<rparr>)
           (data_m m ! j) (advance (size_m m0) j)"
        using wf step.prems step.hyps(1) occ by (rule carried_ok_swap)
      from step.IH[OF this] show ?thesis
        using True occ eqs by (subst RobinHood_loop.simps) simp
    next
      case False
      have "carried_ok m0 M m to_insert (advance (size_m m0) j)"
        using step.prems occ by (rule carried_ok_keep)
      from step.IH[OF this] show ?thesis
        using False occ eqs by (subst RobinHood_loop.simps) simp
    qed
  qed
qed

subsection \<open>\<^verbatim>\<open>InsertByIndex\<close>, \<^verbatim>\<open>InsertElement\<close> and \<^verbatim>\<open>Rebuild\<close>\<close>

lemma InsertByIndex_free:
  assumes wf: "wf_struct m" and i: "i < size_m m" "free_places_m m ! i"
  shows "wf_struct (InsertByIndex m i key val psl)"
    and "size_m (InsertByIndex m i key val psl) = size_m m"
    and "hash_m (InsertByIndex m i key val psl) = hash_m m"
    and "element_count_m (InsertByIndex m i key val psl) = element_count_m m + 1"
    and "mset (iterate (InsertByIndex m i key val psl)) = add_mset (key, val) (mset (iterate m))"
    and "free_places_m (InsertByIndex m i key val psl) = (free_places_m m)[i := False]"
    and "data_m (InsertByIndex m i key val psl) = (data_m m)[i := (key, val)]"
proof -
  let ?m' = "InsertByIndex m i key val psl"
  have notin: "i \<notin> set (element_positions_m m)" using wf i by (simp add: wf_struct_def)
  have len: "length (data_m m) = size_m m" "length (free_places_m m) = size_m m"
    "length (index_in_element_positions_m m) = size_m m"
    using wf by (simp_all add: wf_struct_def)
  have set_eq: "set (element_positions_m m) = {s. s < size_m m \<and> \<not> free_places_m m ! s}"
    using wf by (simp add: wf_struct_def)
  have "set (element_positions_m m @ [i]) =
        {s. s < size_m m \<and> \<not> (free_places_m m)[i := False] ! s}"
    using i len set_eq by (auto simp: nth_update_if)
  moreover have "\<forall>j < length (element_positions_m m @ [i]).
      (index_in_element_positions_m m)[i := length (element_positions_m m)] !
        ((element_positions_m m @ [i]) ! j) = j"
  proof (intro allI impI)
    fix j assume j: "j < length (element_positions_m m @ [i])"
    show "(index_in_element_positions_m m)[i := length (element_positions_m m)] !
        ((element_positions_m m @ [i]) ! j) = j"
    proof (cases "j < length (element_positions_m m)")
      case True
      then have "element_positions_m m ! j \<noteq> i" using notin by (metis nth_mem)
      then show ?thesis using True wf by (simp add: nth_append wf_struct_def)
    next
      case False
      then have "j = length (element_positions_m m)" using j by simp
      then show ?thesis using i len by (simp add: nth_append)
    qed
  qed
  ultimately show "wf_struct ?m'"
    using wf i notin by (simp add: InsertByIndex_def wf_struct_def)
  show "size_m ?m' = size_m m" "hash_m ?m' = hash_m m"
    "element_count_m ?m' = element_count_m m + 1"
    "free_places_m ?m' = (free_places_m m)[i := False]"
    "data_m ?m' = (data_m m)[i := (key, val)]"
    using i by (simp_all add: InsertByIndex_def)
  have "image_mset ((!) ((data_m m)[i := (key, val)])) (mset (element_positions_m m)) =
        image_mset ((!) (data_m m)) (mset (element_positions_m m))"
    using notin by (intro image_mset_cong) (auto simp: nth_update_if)
  then show "mset (iterate ?m') = add_mset (key, val) (mset (iterate m))"
    using i len by (simp add: InsertByIndex_def iterate_eq)
qed

lemma InsertByIndex_probe_ok:
  assumes wf: "wf_struct m" and i: "i < size_m m" "free_places_m m ! i"
    and p: "probe_ok m"
    and c: "\<exists>d. path (free_places_m m) (size_m m) (home m key) d i"
  shows "probe_ok (InsertByIndex m i key val psl)"
proof -
  let ?m' = "InsertByIndex m i key val psl"
  have eqs: "size_m ?m' = size_m m" "hash_m ?m' = hash_m m"
    "free_places_m ?m' = (free_places_m m)[i := False]"
    "data_m ?m' = (data_m m)[i := (key, val)]"
    using InsertByIndex_free[OF wf i] by simp_all
  have len: "length (data_m m) = size_m m" using wf by (simp add: wf_struct_def)
  show ?thesis
    unfolding probe_ok_def
  proof (intro allI impI)
    fix s assume s: "s < size_m ?m'" "\<not> free_places_m ?m' ! s"
    show "\<exists>d. path (free_places_m ?m') (size_m ?m') (home ?m' (fst (data_m ?m' ! s))) d s"
    proof (cases "s = i")
      case True
      from c obtain d where "path (free_places_m m) (size_m m) (home m key) d i" ..
      then have "path ((free_places_m m)[i := False]) (size_m m) (home m key) d i"
        by (rule path_mono)
      then show ?thesis using True eqs len i by (auto simp: home_def simp del: path.simps)
    next
      case False
      then have "\<not> free_places_m m ! s" "s < size_m m" using s eqs by (simp_all add: nth_update_if)
      with p obtain d where
        "path (free_places_m m) (size_m m) (home m (fst (data_m m ! s))) d s"
        by (auto simp: probe_ok_def)
      then have "path ((free_places_m m)[i := False]) (size_m m)
          (home m (fst (data_m m ! s))) d s"
        by (rule path_mono)
      then show ?thesis using False eqs by (auto simp: home_def simp del: path.simps)
    qed
  qed
qed

lemma RobinHoodGetKeyIndex_spec:
  assumes wf: "wf_struct m" and c: "element_count_m m < size_m m" and p: "probe_ok m"
  shows "\<exists>m' a. RobinHoodGetKeyIndex m key val = Some (m', a) \<and> wf_struct m' \<and> probe_ok m' \<and>
           size_m m' = size_m m \<and> hash_m m' = hash_m m \<and>
           element_count_m m' = element_count_m m + 1 \<and>
           mset (iterate m') = add_mset (key, val) (mset (iterate m))"
proof -
  obtain f where f: "f < size_m m" "free_places_m m ! f"
    using free_slot_exists[OF wf c] by blast
  have h: "home m key < size_m m" using wf by (simp add: home_less wf_struct_size_pos)
  have "path (free_places_m m) (size_m m) (home m key) 0 (home m key)" by simp
  then have "carried_ok m (add_mset (key, val) (mset (iterate m))) m (key, val) (home m key)"
    using p unfolding carried_ok_def by (auto simp: same_frame_refl simp del: path.simps)
  from RobinHood_loop_spec[OF wf f h this, of 1 None]
  obtain m1 ti cp ans i1 where
    loop: "RobinHood_loop m (key, val) 1 None (home m key) = Some (m1, ti, cp, ans, i1)"
    and c1: "carried_ok m (add_mset (key, val) (mset (iterate m))) m1 ti i1"
    and i1: "i1 < size_m m" "free_places_m m ! i1"
    by blast
  from c1 have sf: "same_frame m m1"
    and M: "add_mset ti (mset (iterate m1)) = add_mset (key, val) (mset (iterate m))"
    and p1: "probe_ok m1"
    and cp: "\<exists>d. path (free_places_m m1) (size_m m1) (home m1 (fst ti)) d i1"
    by (simp_all add: carried_ok_def)
  have wf1: "wf_struct m1" using sf wf by (rule same_frame_wf_struct)
  have eqs: "size_m m1 = size_m m" "free_places_m m1 = free_places_m m" "hash_m m1 = hash_m m"
    "element_count_m m1 = element_count_m m"
    using sf by (simp_all add: same_frame_def)
  have i1': "i1 < size_m m1" "free_places_m m1 ! i1" using i1 eqs by simp_all
  let ?m' = "InsertByIndex m1 i1 (fst ti) (snd ti) cp"
  have "RobinHoodGetKeyIndex m key val = Some (?m', case ans of None \<Rightarrow> i1 | Some a \<Rightarrow> a)"
    using loop by (simp add: RobinHoodGetKeyIndex_def home_def)
  moreover have "wf_struct ?m'" using wf1 i1' by (rule InsertByIndex_free)
  moreover have "probe_ok ?m'" using wf1 i1' p1 cp by (rule InsertByIndex_probe_ok)
  moreover have "size_m ?m' = size_m m" "hash_m ?m' = hash_m m"
    "element_count_m ?m' = element_count_m m + 1"
    using InsertByIndex_free(2,3,4)[OF wf1 i1'] eqs by simp_all
  moreover have "mset (iterate ?m') = add_mset (key, val) (mset (iterate m))"
    using InsertByIndex_free(5)[OF wf1 i1', of "fst ti" "snd ti" cp] M by simp
  ultimately show ?thesis by blast
qed

lemma InsertElement_cool:
  "IsCoolLoad m (size_m m) MAX_LOAD_FACTOR \<Longrightarrow>
     InsertElement m key val = RobinHoodGetKeyIndex m key val"
  by (simp add: InsertElement_Rebuild)

lemma cool_count_less:
  "IsCoolLoad m (size_m m) MAX_LOAD_FACTOR \<Longrightarrow> element_count_m m < size_m m"
  by (simp add: IsCoolLoad_def MAX_LOAD_FACTOR_def)

lemma insert_queue_cool:
  assumes "wf_struct m" "probe_ok m"
    and "(element_count_m m + length elements) * 100 < MAX_LOAD_FACTOR * size_m m + 100"
  shows "\<exists>m'. insert_queue InsertElement elements m = Some m' \<and> wf_struct m' \<and> probe_ok m' \<and>
           size_m m' = size_m m \<and> hash_m m' = hash_m m \<and>
           element_count_m m' = element_count_m m + length elements \<and>
           mset (iterate m') = mset (iterate m) + mset elements"
  using assms
proof (induction elements arbitrary: m)
  case Nil
  then show ?case by simp
next
  case (Cons e elements)
  have cool: "IsCoolLoad m (size_m m) MAX_LOAD_FACTOR"
    using Cons.prems(3) by (simp add: IsCoolLoad_def)
  from RobinHoodGetKeyIndex_spec[OF Cons.prems(1) cool_count_less[OF cool] Cons.prems(2),
      of "fst e" "snd e"]
  obtain m1 a where m1: "RobinHoodGetKeyIndex m (fst e) (snd e) = Some (m1, a)"
    "wf_struct m1" "probe_ok m1" "size_m m1 = size_m m" "hash_m m1 = hash_m m"
    "element_count_m m1 = element_count_m m + 1"
    "mset (iterate m1) = add_mset e (mset (iterate m))"
    by auto
  have "(element_count_m m1 + length elements) * 100 < MAX_LOAD_FACTOR * size_m m1 + 100"
    using Cons.prems(3) m1(4,6) by simp
  from Cons.IH[OF m1(2,3) this]
  obtain m' where m': "insert_queue InsertElement elements m1 = Some m'" "wf_struct m'"
    "probe_ok m'" "size_m m' = size_m m1" "hash_m m' = hash_m m1"
    "element_count_m m' = element_count_m m1 + length elements"
    "mset (iterate m') = mset (iterate m1) + mset elements"
    by blast
  have "insert_queue InsertElement (e # elements) m = Some m'"
    using m1(1) m'(1) by (simp add: InsertElement_cool[OF cool])
  then show ?case using m' m1 by simp
qed

lemma Rebuild_new_size_once:
  "IsCoolLoad m (new_size * 4) MAX_LOAD_FACTOR_ON_REBUILD \<Longrightarrow>
     Rebuild_new_size m new_size = Some (new_size * 4)"
  by (subst Rebuild_new_size.simps) (simp add: SIZE_INCREASING_ON_REBUILD_def)

lemma Rebuild_new_size_load_ok:
  assumes "load_ok m" "0 < size_m m"
  shows "Rebuild_new_size m (size_m m) = Some (size_m m * 4)"
  using assms
  by (intro Rebuild_new_size_once)
     (simp add: IsCoolLoad_def load_ok_def MAX_LOAD_FACTOR_def MAX_LOAD_FACTOR_ON_REBUILD_def)

lemma Init_spec:
  assumes "DEFAULT_SIZE \<le> n"
  shows "wf_struct (Init m n)" "probe_ok (Init m n)" "size_m (Init m n) = n"
    "hash_m (Init m n) = hash_m m" "element_count_m (Init m n) = 0" "iterate (Init m n) = []"
  using assms by (simp_all add: Init_def wf_struct_def probe_ok_def iterate_eq)

lemma Rebuild_spec:
  assumes "table_ok m"
  shows "\<exists>m'. Rebuild m = Some m' \<and> table_ok m' \<and> hash_m m' = hash_m m \<and>
           size_m m' = size_m m * 4 \<and> element_count_m m' = element_count_m m \<and>
           mset (iterate m') = mset (iterate m)"
proof -
  from assms have wf: "wf_struct m" and l: "load_ok m" by (simp_all add: table_ok_def)
  let ?n = "size_m m * 4"
  let ?es = "map (\<lambda>i. data_m m ! i) (element_positions_m m)"
  have n: "DEFAULT_SIZE \<le> ?n" using wf by (simp add: wf_struct_def)
  have cnt: "element_count_m m = length ?es" using wf by (simp add: wf_struct_def)
  have ns: "Rebuild_new_size m (size_m m) = Some ?n"
    using l wf by (simp add: Rebuild_new_size_load_ok wf_struct_size_pos)
  have "(element_count_m (Init m ?n) + length ?es) * 100
          < MAX_LOAD_FACTOR * size_m (Init m ?n) + 100"
    using l cnt[symmetric] by (simp add: Init_spec[OF n] load_ok_def MAX_LOAD_FACTOR_def)
  from insert_queue_cool[OF Init_spec(1,2)[OF n] this]
  obtain m' where m': "insert_queue InsertElement ?es (Init m ?n) = Some m'" "wf_struct m'"
    "probe_ok m'" "size_m m' = ?n" "hash_m m' = hash_m m"
    "element_count_m m' = length ?es" "mset (iterate m') = mset ?es"
    by (auto simp: Init_spec[OF n])
  have "Rebuild m = Some m'" using ns m'(1) by (simp add: Rebuild_def)
  moreover have "load_ok m'"
    using l m'(4,6) cnt by (simp add: load_ok_def MAX_LOAD_FACTOR_def)
  ultimately show ?thesis using m' cnt by (simp add: table_ok_def iterate_eq)
qed

lemma InsertElement_spec:
  assumes "table_ok m"
  shows "\<exists>m' a. InsertElement m key val = Some (m', a) \<and> table_ok m' \<and> hash_m m' = hash_m m \<and>
           size_m m' = (if IsCoolLoad m (size_m m) MAX_LOAD_FACTOR then size_m m
                        else size_m m * 4) \<and>
           element_count_m m' = element_count_m m + 1 \<and>
           mset (iterate m') = add_mset (key, val) (mset (iterate m))"
proof (cases "IsCoolLoad m (size_m m) MAX_LOAD_FACTOR")
  case True
  from assms have wf: "wf_struct m" and p: "probe_ok m" by (simp_all add: table_ok_def)
  from RobinHoodGetKeyIndex_spec[OF wf cool_count_less[OF True] p, of key val]
  obtain m' a where m': "RobinHoodGetKeyIndex m key val = Some (m', a)"
    "wf_struct m'" "probe_ok m'" "size_m m' = size_m m" "hash_m m' = hash_m m"
    "element_count_m m' = element_count_m m + 1"
    "mset (iterate m') = add_mset (key, val) (mset (iterate m))"
    by blast
  have "load_ok m'" using True m'(4,6) by (simp add: load_ok_def IsCoolLoad_def)
  then show ?thesis using True m' by (simp add: InsertElement_cool table_ok_def)
next
  case False
  from Rebuild_spec[OF assms]
  obtain mr where mr: "Rebuild m = Some mr" "table_ok mr" "hash_m mr = hash_m m"
    "size_m mr = size_m m * 4" "element_count_m mr = element_count_m m"
    "mset (iterate mr) = mset (iterate m)"
    by blast
  from mr(2) have wf: "wf_struct mr" and p: "probe_ok mr" by (simp_all add: table_ok_def)
  from assms have l: "load_ok m" by (simp add: table_ok_def)
  from assms have pos: "0 < size_m m" by (simp add: table_ok_def wf_struct_size_pos)
  then have c: "element_count_m mr < size_m mr"
    using l mr(4,5) by (simp add: load_ok_def MAX_LOAD_FACTOR_def)
  from RobinHoodGetKeyIndex_spec[OF wf c p, of key val]
  obtain m' a where m': "RobinHoodGetKeyIndex mr key val = Some (m', a)"
    "wf_struct m'" "probe_ok m'" "size_m m' = size_m mr" "hash_m m' = hash_m mr"
    "element_count_m m' = element_count_m mr + 1"
    "mset (iterate m') = add_mset (key, val) (mset (iterate mr))"
    by blast
  have "load_ok m'" using l pos m'(4,6) mr(4,5) by (simp add: load_ok_def MAX_LOAD_FACTOR_def)
  then show ?thesis using False m' mr by (simp add: InsertElement_Rebuild table_ok_def)
qed

subsection \<open>Removing one slot\<close>

lemma swap_pop:
  assumes d: "distinct ps" and i: "i < length ps"
  defines "ps' \<equiv> butlast (ps[i := ps ! (length ps - 1), length ps - 1 := ps ! i])"
  shows "mset ps' = mset ps - {#ps ! i#}"
    and "distinct ps'"
    and "length ps' = length ps - 1"
    and "\<forall>j < length ps'. ps' ! j = (if j = i then ps ! (length ps - 1) else ps ! j)"
    and "set ps' = set ps - {ps ! i}"
proof -
  let ?b = "length ps - 1"
  let ?sw = "ps[i := ps ! ?b, ?b := ps ! i]"
  have b: "?b < length ps" using i by simp
  have ne: "?sw \<noteq> []" using i by auto
  have m: "mset ?sw = mset ps" using mset_swap[OF b i] .
  have l: "last ?sw = ps ! i" using b ne by (simp add: last_conv_nth)
  have "mset ps' = mset ?sw - {#last ?sw#}"
    using ne unfolding ps'_def by (metis add_mset_remove_trivial append_butlast_last_id
        mset.simps(2) mset_append union_mset_add_mset_right add.right_neutral mset.simps(1))
  then show ms: "mset ps' = mset ps - {#ps ! i#}" using m l by simp
  have "distinct ?sw" using m d by (metis mset_eq_imp_distinct_iff)
  then show "distinct ps'" unfolding ps'_def by (rule distinct_butlast)
  show "length ps' = length ps - 1" unfolding ps'_def by simp
  show "\<forall>j < length ps'. ps' ! j = (if j = i then ps ! (length ps - 1) else ps ! j)"
    unfolding ps'_def using i by (auto simp: nth_butlast nth_update_if)
  have "mset ps' = mset (remove1 (ps ! i) ps)" using ms by simp
  then have "set ps' = set (remove1 (ps ! i) ps)" by (rule mset_eq_setD)
  then show "set ps' = set ps - {ps ! i}" using d by simp
qed

lemma wf_struct_index:
  assumes "wf_struct m" "p < size_m m" "\<not> free_places_m m ! p"
  shows "index_in_element_positions_m m ! p < length (element_positions_m m)"
    and "element_positions_m m ! (index_in_element_positions_m m ! p) = p"
proof -
  from assms have "p \<in> set (element_positions_m m)" by (simp add: wf_struct_def)
  then obtain j where j: "j < length (element_positions_m m)" "element_positions_m m ! j = p"
    by (auto simp: in_set_conv_nth)
  moreover have "index_in_element_positions_m m ! (element_positions_m m ! j) = j"
    using assms(1) j(1) by (simp add: wf_struct_def)
  ultimately show "index_in_element_positions_m m ! p < length (element_positions_m m)"
    and "element_positions_m m ! (index_in_element_positions_m m ! p) = p"
    by simp_all
qed

lemma DeleteElementByPosition_unfixed_fields:
  "size_m (DeleteElementByPosition_unfixed m p) = size_m m"
  "hash_m (DeleteElementByPosition_unfixed m p) = hash_m m"
  "data_m (DeleteElementByPosition_unfixed m p) = data_m m"
  "psl_m (DeleteElementByPosition_unfixed m p) = psl_m m"
  "free_places_m (DeleteElementByPosition_unfixed m p) = (free_places_m m)[p := True]"
  "element_count_m (DeleteElementByPosition_unfixed m p) = element_count_m m - 1"
  "element_positions_m (DeleteElementByPosition_unfixed m p) =
     butlast ((element_positions_m m)
       [index_in_element_positions_m m ! p :=
          element_positions_m m ! (length (element_positions_m m) - 1),
        length (element_positions_m m) - 1 :=
          element_positions_m m ! (index_in_element_positions_m m ! p)])"
  "index_in_element_positions_m (DeleteElementByPosition_unfixed m p) =
     (index_in_element_positions_m m)
       [element_positions_m m ! (index_in_element_positions_m m ! p) :=
          index_in_element_positions_m m !
            (element_positions_m m ! (length (element_positions_m m) - 1)),
        element_positions_m m ! (length (element_positions_m m) - 1) :=
          index_in_element_positions_m m !
            (element_positions_m m ! (index_in_element_positions_m m ! p))]"
  by (simp_all add: DeleteElementByPosition_unfixed_def SwapInElementPositions_def Let_def)

lemma DeleteElementByPosition_unfixed_spec:
  assumes wf: "wf_struct m" and p: "p < size_m m" "\<not> free_places_m m ! p"
  shows "wf_struct (DeleteElementByPosition_unfixed m p)"
    and "Suc (element_count_m (DeleteElementByPosition_unfixed m p)) = element_count_m m"
    and "add_mset (data_m m ! p) (mset (iterate (DeleteElementByPosition_unfixed m p))) =
           mset (iterate m)"
proof -
  let ?m' = "DeleteElementByPosition_unfixed m p"
  let ?ps = "element_positions_m m" and ?ix = "index_in_element_positions_m m"
  let ?i = "?ix ! p" and ?b = "length ?ps - 1"
  let ?q = "?ps ! ?b"
  note f = DeleteElementByPosition_unfixed_fields[of m p]
  have i: "?i < length ?ps" "?ps ! ?i = p" using wf_struct_index[OF wf p] by simp_all
  have d: "distinct ?ps" and len: "length (free_places_m m) = size_m m"
    "length ?ix = size_m m" and cnt: "element_count_m m = length ?ps"
    and set_eq: "set ?ps = {s. s < size_m m \<and> \<not> free_places_m m ! s}"
    and ix: "\<forall>j < length ?ps. ?ix ! (?ps ! j) = j"
    and rest: "DEFAULT_SIZE \<le> size_m m" "length (data_m m) = size_m m"
       "length (psl_m m) = size_m m"
    using wf by (simp_all add: wf_struct_def)
  have b: "?b < length ?ps" using i by simp
  have q: "?q < size_m m" using b set_eq by (metis (mono_tags, lifting) mem_Collect_eq nth_mem)
  have ixq: "?ix ! ?q = ?b" using ix b by simp
  note sp = swap_pop[OF d i(1)]
  have ps': "element_positions_m ?m' = butlast (?ps[?i := ?q, ?b := ?ps ! ?i])"
    by (simp add: f)
  have ix': "index_in_element_positions_m ?m' = ?ix[p := ?b, ?q := ?i]"
    using i ixq by (simp add: f)
  have s1: "set (element_positions_m ?m') =
      {s. s < size_m ?m' \<and> \<not> free_places_m ?m' ! s}"
    unfolding ps' sp(5) using i(2) set_eq len p by (auto simp: f nth_update_if)
  have s2: "\<forall>j < length (element_positions_m ?m').
      index_in_element_positions_m ?m' ! (element_positions_m ?m' ! j) = j"
  proof (intro allI impI)
    fix j assume j: "j < length (element_positions_m ?m')"
    then have jb: "j < ?b" using sp(3) ps' by simp
    show "index_in_element_positions_m ?m' ! (element_positions_m ?m' ! j) = j"
    proof (cases "j = ?i")
      case True
      then have "element_positions_m ?m' ! j = ?q" using sp(4) j ps' by simp
      then show ?thesis using True q len by (simp add: ix')
    next
      case False
      then have e: "element_positions_m ?m' ! j = ?ps ! j" using sp(4) j ps' by simp
      have "?ps ! j \<noteq> p" using False i d jb b by (metis less_trans nth_eq_iff_index_eq)
      moreover have "?ps ! j \<noteq> ?q" using d jb b by (simp add: nth_eq_iff_index_eq)
      moreover have "?ix ! (?ps ! j) = j" using ix jb b by simp
      ultimately show ?thesis using e by (simp add: ix')
    qed
  qed
  show "wf_struct ?m'"
    unfolding wf_struct_def
    using s1 s2 sp(2,3) ps' rest len cnt by (simp add: f)
  show "Suc (element_count_m ?m') = element_count_m m" using cnt i by (simp add: f)
  have pin: "p \<in># mset ?ps" using i by (metis nth_mem set_mset_mset)
  have e: "mset (element_positions_m ?m') = mset ?ps - {#p#}"
    using sp(1) i(2) ps' by simp
  have "mset (iterate ?m') = image_mset ((!) (data_m m)) (mset (element_positions_m ?m'))"
    by (simp add: iterate_eq f(3))
  also have "\<dots> = image_mset ((!) (data_m m)) (mset ?ps - {#p#})"
    by (simp only: e)
  also have "add_mset (data_m m ! p) \<dots> = image_mset ((!) (data_m m)) (mset ?ps)"
    using pin by (metis image_mset_add_mset insert_DiffM)
  also have "\<dots> = mset (iterate m)" by (simp add: iterate_eq)
  finally show "add_mset (data_m m ! p) (mset (iterate ?m')) = mset (iterate m)" by simp
qed

subsection \<open>\<^verbatim>\<open>FixPosition\<close> and \<^verbatim>\<open>DeleteElementByPosition\<close>\<close>

lemma path_free_split:
  "path F n a d s \<Longrightarrow> path (F[i := True]) n a d s \<or> (\<exists>d' \<le> d. path F n i d' s)"
proof (induction d arbitrary: a)
  case 0
  then show ?case by simp
next
  case (Suc d)
  show ?case
  proof (cases "a = i")
    case True
    then show ?thesis using Suc.prems by blast
  next
    case False
    from Suc.prems have a: "\<not> F ! a" and r: "path F n (advance n a) d s" by simp_all
    from Suc.IH[OF r] show ?thesis
    proof
      assume "path (F[i := True]) n (advance n a) d s"
      then have "path (F[i := True]) n a (Suc d) s" using a False by simp
      then show ?thesis ..
    next
      assume "\<exists>d' \<le> d. path F n i d' s"
      then show ?thesis using le_Suc_eq by blast
    qed
  qed
qed

lemma path_after_free:
  "path F n i d s \<Longrightarrow> s \<noteq> i \<Longrightarrow> \<exists>d'. path (F[i := True]) n (advance n i) d' s"
proof (induction d rule: less_induct)
  case (less d)
  from less.prems obtain d0 where d: "d = Suc d0" by (cases d) auto
  with less.prems have "path F n (advance n i) d0 s" by simp
  from path_free_split[OF this, of i] show ?case
  proof
    assume "path (F[i := True]) n (advance n i) d0 s"
    then show ?thesis ..
  next
    assume "\<exists>d' \<le> d0. path F n i d' s"
    then obtain d' where "d' \<le> d0" "path F n i d' s" by blast
    then show ?thesis using less.IH[of d'] less.prems(2) d by simp
  qed
qed

lemma path_from_free: "path F n i d s \<Longrightarrow> F ! i \<Longrightarrow> s = i"
  by (cases d) auto

lemma weak_probe_free: "weak_probe m i \<Longrightarrow> free_places_m m ! i \<Longrightarrow> probe_ok m"
  unfolding weak_probe_def probe_ok_def
  by (metis path_from_free)

lemma probe_ok_weak: "probe_ok m \<Longrightarrow> weak_probe m i"
  by (simp add: weak_probe_def probe_ok_def)

lemma weak_probe_step:
  assumes w: "weak_probe m j" and j: "j < size_m m" "length (free_places_m m) = size_m m"
  shows "weak_probe (DeleteElementByPosition_unfixed m j) (advance (size_m m) j)"
  unfolding weak_probe_def
proof (intro allI impI)
  let ?m' = "DeleteElementByPosition_unfixed m j"
  note f = DeleteElementByPosition_unfixed_fields[of m j]
  fix s assume s: "s < size_m ?m'" "\<not> free_places_m ?m' ! s"
  then have sj: "s \<noteq> j" and s': "s < size_m m" "\<not> free_places_m m ! s"
    using j by (auto simp: f nth_update_if split: if_splits)
  have after: "\<exists>d. path (free_places_m ?m') (size_m ?m') (advance (size_m m) j) d s"
    if "path (free_places_m m) (size_m m) j d s" for d
    using path_after_free[OF that sj] by (simp add: f)
  from w s' consider
    d where "path (free_places_m m) (size_m m) (home m (fst (data_m m ! s))) d s"
    | d where "path (free_places_m m) (size_m m) j d s"
    unfolding weak_probe_def by blast
  then show "(\<exists>d. path (free_places_m ?m') (size_m ?m') (home ?m' (fst (data_m ?m' ! s))) d s) \<or>
        (\<exists>d. path (free_places_m ?m') (size_m ?m') (advance (size_m m) j) d s)"
  proof cases
    case 1
    from path_free_split[OF 1, of j] show ?thesis
    proof
      assume "path ((free_places_m m)[j := True]) (size_m m)
         (home m (fst (data_m m ! s))) d s"
      then show ?thesis by (auto simp: f home_def simp del: path.simps)
    next
      assume "\<exists>d' \<le> d. path (free_places_m m) (size_m m) j d' s"
      then show ?thesis using after by blast
    qed
  next
    case 2
    then show ?thesis using after by blast
  qed
qed

lemma FixPosition_loop_spec:
  assumes f: "f < n" and i: "i < n"
  shows "wf_struct m \<Longrightarrow> size_m m = n \<Longrightarrow> free_places_m m ! f \<Longrightarrow> weak_probe m i \<Longrightarrow>
     \<exists>m' elements'. FixPosition_loop m i elements = Some (m', elements') \<and>
        wf_struct m' \<and> probe_ok m' \<and> size_m m' = n \<and> hash_m m' = hash_m m \<and>
        element_count_m m' + length elements' = element_count_m m + length elements \<and>
        mset (iterate m') + mset elements' = mset (iterate m) + mset elements"
  using f i
proof (induction arbitrary: m elements rule: advance_induct)
  case free
  then show ?case
    by (subst FixPosition_loop.simps) (simp add: weak_probe_free)
next
  case (step j)
  show ?case
  proof (cases "free_places_m m ! j")
    case True
    then show ?thesis using step.prems
      by (subst FixPosition_loop.simps) (simp add: weak_probe_free)
  next
    case False
    let ?m1 = "DeleteElementByPosition_unfixed m j"
    note fl = DeleteElementByPosition_unfixed_fields[of m j]
    have j: "j < size_m m" using step.hyps(1) step.prems(2) by simp
    note sp = DeleteElementByPosition_unfixed_spec[OF step.prems(1) j False]
    have len: "length (free_places_m m) = size_m m"
      using step.prems(1) by (simp add: wf_struct_def)
    have ff: "free_places_m ?m1 ! f" using step.prems(3) by (simp add: fl nth_update_if)
    have w1: "weak_probe ?m1 (advance n j)"
      using weak_probe_step[OF step.prems(4) j len] step.prems(2) by simp
    have n1: "size_m ?m1 = n" using step.prems(2) by (simp add: fl)
    from step.IH[OF sp(1) n1 ff w1, of "elements @ [data_m m ! j]"]
    obtain m' elements' where r:
      "FixPosition_loop ?m1 (advance n j) (elements @ [data_m m ! j]) = Some (m', elements')"
      "wf_struct m'" "probe_ok m'" "size_m m' = n" "hash_m m' = hash_m ?m1"
      "element_count_m m' + length elements' =
         element_count_m ?m1 + length (elements @ [data_m m ! j])"
      "mset (iterate m') + mset elements' =
         mset (iterate ?m1) + mset (elements @ [data_m m ! j])"
      by blast
    have "FixPosition_loop m j elements = Some (m', elements')"
      using False r(1) step.prems(2) by (subst FixPosition_loop.simps) simp
    moreover have "element_count_m m' + length elements' = element_count_m m + length elements"
      using r(6) sp(2) by simp
    moreover have "mset (iterate m') + mset elements' = mset (iterate m) + mset elements"
      using r(7) sp(3) by (simp flip: sp(3))
    ultimately show ?thesis using r(2,3,4,5) by (simp add: fl)
  qed
qed

lemma DeleteElementByPosition_spec:
  assumes t: "table_ok m" and p: "p < size_m m" "\<not> free_places_m m ! p"
  shows "\<exists>m'. DeleteElementByPosition m p True = Some m' \<and> table_ok m' \<and>
           size_m m' = size_m m \<and> hash_m m' = hash_m m \<and>
           Suc (element_count_m m') = element_count_m m \<and>
           add_mset (data_m m ! p) (mset (iterate m')) = mset (iterate m)"
proof -
  from t have wf: "wf_struct m" and l: "load_ok m" and pr: "probe_ok m"
    by (simp_all add: table_ok_def)
  let ?m1 = "DeleteElementByPosition_unfixed m p"
  note fl = DeleteElementByPosition_unfixed_fields[of m p]
  note sp = DeleteElementByPosition_unfixed_spec[OF wf p]
  have len: "length (free_places_m m) = size_m m" using wf by (simp add: wf_struct_def)
  have w1: "weak_probe ?m1 (advance (size_m m) p)"
    using weak_probe_step[OF probe_ok_weak[OF pr] p(1) len] .
  have fp: "free_places_m ?m1 ! p" using p len by (simp add: fl)
  have a: "advance (size_m m) p < size_m m" using p by (simp add: advance_less)
  from FixPosition_loop_spec[OF p(1) a sp(1) fl(1) fp w1, of "[]"]
  obtain m2 elements where r:
    "FixPosition_loop ?m1 (advance (size_m m) p) [] = Some (m2, elements)"
    "wf_struct m2" "probe_ok m2" "size_m m2 = size_m m" "hash_m m2 = hash_m m"
    "element_count_m m2 + length elements = element_count_m ?m1"
    "mset (iterate m2) + mset elements = mset (iterate ?m1)"
    by (auto simp: fl)
  have "(element_count_m m2 + length elements) * 100 < MAX_LOAD_FACTOR * size_m m2 + 100"
    using l r(4,6) sp(2) by (simp add: load_ok_def)
  from insert_queue_cool[OF r(2,3) this]
  obtain m' where m': "insert_queue InsertElement elements m2 = Some m'" "wf_struct m'"
    "probe_ok m'" "size_m m' = size_m m2" "hash_m m' = hash_m m2"
    "element_count_m m' = element_count_m m2 + length elements"
    "mset (iterate m') = mset (iterate m2) + mset elements"
    by blast
  have "DeleteElementByPosition m p True = Some m'"
    using r(1) m'(1) by (simp add: DeleteElementByPosition_def FixPosition_def fl)
  moreover have c: "Suc (element_count_m m') = element_count_m m"
    using m'(6) r(6) sp(2) by simp
  moreover have "load_ok m'" using l c m'(4) r(4) by (auto simp: load_ok_def)
  moreover have "add_mset (data_m m ! p) (mset (iterate m')) = mset (iterate m)"
    using m'(7) r(7) sp(3) by simp
  ultimately show ?thesis using m' r(4,5) by (simp add: table_ok_def)
qed

subsection \<open>The public member functions on a well-formed table\<close>

lemma table_ok_count_less: "table_ok m \<Longrightarrow> element_count_m m < size_m m"
  by (simp add: table_ok_def load_ok_count_less)

lemma GetKeyIndex_table_ok:
  assumes "table_ok m"
  shows "\<exists>r. GetKeyIndex m key = Some r \<and> r < size_m m \<and>
           (if key \<in> keys m then \<not> free_places_m m ! r \<and> fst (data_m m ! r) = key
            else free_places_m m ! r)"
proof (cases "key \<in> keys m")
  case True
  then show ?thesis
    using GetKeyIndex_present[of m key] assms by (simp add: table_ok_def keys_def)
next
  case False
  then show ?thesis
    using GetKeyIndex_absent[of m key] assms table_ok_count_less[OF assms]
    by (simp add: table_ok_def keys_def)
qed

lemma HashMap_table_ok: "table_ok (HashMap hash)"
  by (simp add: HashMap_def table_ok_def Init_spec load_ok_def)

lemma HashMap_fields:
  "size_m (HashMap hash) = DEFAULT_SIZE" "hash_m (HashMap hash) = hash"
  "element_count_m (HashMap hash) = 0" "iterate (HashMap hash) = []"
  by (simp_all add: HashMap_def Init_def iterate_eq)

lemma insert_queue_spec:
  assumes "table_ok m"
  shows "\<exists>m'. insert_queue InsertElement elements m = Some m' \<and> table_ok m' \<and>
           hash_m m' = hash_m m \<and> size_m m \<le> size_m m' \<and>
           element_count_m m' = element_count_m m + length elements \<and>
           mset (iterate m') = mset (iterate m) + mset elements"
  using assms
proof (induction elements arbitrary: m)
  case Nil
  then show ?case by simp
next
  case (Cons e elements)
  from InsertElement_spec[OF Cons.prems, of "fst e" "snd e"]
  obtain m1 a where m1: "InsertElement m (fst e) (snd e) = Some (m1, a)" "table_ok m1"
    "hash_m m1 = hash_m m" "size_m m \<le> size_m m1"
    "element_count_m m1 = element_count_m m + 1"
    "mset (iterate m1) = add_mset e (mset (iterate m))"
    by (auto split: if_splits)
  from Cons.IH[OF m1(2)]
  obtain m' where m': "insert_queue InsertElement elements m1 = Some m'" "table_ok m'"
    "hash_m m' = hash_m m1" "size_m m1 \<le> size_m m'"
    "element_count_m m' = element_count_m m1 + length elements"
    "mset (iterate m') = mset (iterate m1) + mset elements"
    by blast
  have "insert_queue InsertElement (e # elements) m = Some m'" using m1(1) m'(1) by simp
  then show ?case using m' m1 by simp
qed

lemma insert_hm_present:
  assumes "table_ok m" "fst element \<in> keys m"
  shows "insert_hm m element = Some m"
  using GetKeyIndex_table_ok[OF assms(1), of "fst element"] assms(2)
  by (auto simp: insert_hm_def)

lemma insert_hm_absent:
  assumes "table_ok m" "fst element \<notin> keys m"
  shows "\<exists>m'. insert_hm m element = Some m' \<and> table_ok m' \<and> hash_m m' = hash_m m \<and>
           size_m m' = (if IsCoolLoad m (size_m m) MAX_LOAD_FACTOR then size_m m
                        else size_m m * 4) \<and>
           element_count_m m' = element_count_m m + 1 \<and>
           mset (iterate m') = add_mset element (mset (iterate m))"
proof -
  from GetKeyIndex_table_ok[OF assms(1), of "fst element"] assms(2)
  obtain r where r: "GetKeyIndex m (fst element) = Some r" "free_places_m m ! r" by auto
  from InsertElement_spec[OF assms(1), of "fst element" "snd element"]
  obtain m' a where m': "InsertElement m (fst element) (snd element) = Some (m', a)"
    "table_ok m'" "hash_m m' = hash_m m"
    "size_m m' = (if IsCoolLoad m (size_m m) MAX_LOAD_FACTOR then size_m m else size_m m * 4)"
    "element_count_m m' = element_count_m m + 1"
    "mset (iterate m') = add_mset element (mset (iterate m))"
    by auto
  have "insert_hm m element = Some m'" using r m'(1) by (simp add: insert_hm_def)
  then show ?thesis using m' by simp
qed

lemma erase_absent:
  assumes "table_ok m" "key \<notin> keys m"
  shows "erase m key = Some m"
  using GetKeyIndex_table_ok[OF assms(1), of key] assms(2)
  by (auto simp: erase_def)

lemma erase_present:
  assumes "table_ok m" "key \<in> keys m"
  shows "\<exists>m' val. erase m key = Some m' \<and> table_ok m' \<and> hash_m m' = hash_m m \<and>
           size_m m' = size_m m \<and> Suc (element_count_m m') = element_count_m m \<and>
           add_mset (key, val) (mset (iterate m')) = mset (iterate m)"
proof -
  from GetKeyIndex_table_ok[OF assms(1), of key] assms(2)
  obtain r where r: "GetKeyIndex m key = Some r" "r < size_m m" "\<not> free_places_m m ! r"
    "fst (data_m m ! r) = key" by auto
  from DeleteElementByPosition_spec[OF assms(1) r(2,3)]
  obtain m' where m': "DeleteElementByPosition m r True = Some m'" "table_ok m'"
    "size_m m' = size_m m" "hash_m m' = hash_m m"
    "Suc (element_count_m m') = element_count_m m"
    "add_mset (data_m m ! r) (mset (iterate m')) = mset (iterate m)"
    by blast
  have "erase m key = Some m'" using r m'(1) by (simp add: erase_def)
  moreover have "data_m m ! r = (key, snd (data_m m ! r))" using r(4) by (metis prod.collapse)
  ultimately show ?thesis using m' by metis
qed

lemma find_hm_absent:
  assumes "table_ok m" "key \<notin> keys m"
  shows "find_hm m key = Some (end_hm m)"
  using GetKeyIndex_table_ok[OF assms(1), of key] assms(2)
  by (auto simp: find_hm_def)

lemma find_hm_present:
  assumes "table_ok m" "key \<in> keys m"
  shows "\<exists>it. find_hm m key = Some it \<and> it < end_hm m \<and> fst (deref m it) = key \<and>
           deref m it \<in> set (iterate m) \<and> at m key = Some (Inr (snd (deref m it)))"
proof -
  from assms(1) have wf: "wf_struct m" by (simp add: table_ok_def)
  from GetKeyIndex_table_ok[OF assms(1), of key] assms(2)
  obtain r where r: "GetKeyIndex m key = Some r" "r < size_m m" "\<not> free_places_m m ! r"
    "fst (data_m m ! r) = key" by auto
  let ?it = "index_in_element_positions_m m ! r"
  note ix = wf_struct_index[OF wf r(2,3)]
  have "find_hm m key = Some ?it" using r by (simp add: find_hm_def)
  moreover have "deref m ?it = data_m m ! r" using ix by (simp add: deref_def)
  moreover have "data_m m ! r \<in> set (iterate m)" using wf r(2,3) by (rule occupied_iterate)
  moreover have "at m key = Some (Inr (snd (data_m m ! r)))" using r by (simp add: at_def)
  ultimately show ?thesis using ix(1) r(4) by (simp add: end_hm_def)
qed

lemma at_absent:
  assumes "table_ok m" "key \<notin> keys m"
  shows "at m key = Some (Inl NotFoundError)"
  using GetKeyIndex_table_ok[OF assms(1), of key] assms(2)
  by (auto simp: at_def)

lemma index_op_spec:
  assumes "table_ok m"
  shows "\<exists>m' i. index_op m key = Some (m', i) \<and> table_ok m' \<and> hash_m m' = hash_m m \<and>
           size_m m \<le> size_m m' \<and>
           (if key \<in> keys m then m' = m
            else mset (iterate m') = add_mset (key, default) (mset (iterate m)))"
proof (cases "key \<in> keys m")
  case True
  then show ?thesis
    using GetKeyIndex_table_ok[OF assms(1), of key] assms by (auto simp: index_op_def)
next
  case False
  from GetKeyIndex_table_ok[OF assms(1), of key] False
  obtain r where r: "GetKeyIndex m key = Some r" "free_places_m m ! r" by auto
  from InsertElement_spec[OF assms(1), of key default]
  obtain m' a where m': "InsertElement m key default = Some (m', a)"
    "table_ok m'" "hash_m m' = hash_m m" "size_m m \<le> size_m m'"
    "mset (iterate m') = add_mset (key, default) (mset (iterate m))"
    by (auto split: if_splits)
  have "index_op m key = Some (m', a)" using r m'(1) by (simp add: index_op_def)
  then show ?thesis using m' False by simp
qed

lemma assign_table_ok:
  assumes "table_ok m"
  shows "table_ok (assign m i val)"
proof -
  have k: "fst ((data_m m)[i := (fst (data_m m ! i), val)] ! s) = fst (data_m m ! s)" for s
    by (simp add: nth_update_if)
  show ?thesis
    using assms unfolding table_ok_def wf_struct_def load_ok_def probe_ok_def assign_def home_def
    by (simp add: k)
qed

lemma assign_fields:
  "size_m (assign m i val) = size_m m" "hash_m (assign m i val) = hash_m m"
  "element_count_m (assign m i val) = element_count_m m"
  "map fst (iterate (assign m i val)) = map fst (iterate m)"
  by (simp_all add: assign_def iterate_eq nth_update_if)

lemma clear_spec:
  assumes "table_ok m"
  shows "\<exists>m'. clear m = Some m' \<and> table_ok m' \<and> hash_m m' = hash_m m \<and>
           size_m m' = size_m m \<and> element_count_m m' = 0 \<and> iterate m' = []"
  using assms
proof (induction "element_count_m m" arbitrary: m)
  case 0
  then have "element_positions_m m = []" by (simp add: table_ok_def wf_struct_def)
  then show ?case using 0 by (subst clear.simps) (simp add: iterate_eq)
next
  case (Suc c)
  from Suc.prems have wf: "wf_struct m" by (simp add: table_ok_def)
  have ne: "element_positions_m m \<noteq> []" using Suc.hyps(2) wf by (auto simp: wf_struct_def)
  then have "element_positions_m m ! 0 \<in> set (element_positions_m m)" by simp
  then have p: "element_positions_m m ! 0 < size_m m"
    "\<not> free_places_m m ! (element_positions_m m ! 0)"
    using wf by (simp_all add: wf_struct_def)
  from DeleteElementByPosition_spec[OF Suc.prems p]
  obtain m1 where m1: "DeleteElementByPosition m (element_positions_m m ! 0) True = Some m1"
    "table_ok m1" "size_m m1 = size_m m" "hash_m m1 = hash_m m"
    "Suc (element_count_m m1) = element_count_m m"
    by blast
  have "c = element_count_m m1" using m1(5) Suc.hyps(2) by simp
  from Suc.hyps(1)[OF this m1(2)]
  obtain m' where m': "clear m1 = Some m'" "table_ok m'" "hash_m m' = hash_m m1"
    "size_m m' = size_m m1" "element_count_m m' = 0" "iterate m' = []"
    by blast
  have "clear m = Some m'"
    using ne m1(1) m'(1) by (subst clear.simps) (simp add: DeleteElementByIndex_def)
  then show ?case using m' m1 by simp
qed

theorem reachable_table_ok: "reachable m \<Longrightarrow> table_ok m"
proof (induction rule: reachable.induct)
  case (default hash)
  show ?case by (rule HashMap_table_ok)
next
  case (range elements hash m)
  then show ?case
    using insert_queue_spec[OF HashMap_table_ok, of elements hash]
    by (auto simp: HashMap_range_def)
next
  case (insert m element m')
  then show ?case
    using insert_hm_present[of m element] insert_hm_absent[of m element]
    by (cases "fst element \<in> keys m") auto
next
  case (erase m key m')
  then show ?case
    using erase_present[of m key] erase_absent[of m key]
    by (cases "key \<in> keys m") auto
next
  case (index m key m' i)
  then show ?case using index_op_spec[of m key] by auto
next
  case (assign m i val)
  then show ?case by (simp add: assign_table_ok)
next
  case (clear m m')
  then show ?case using clear_spec[of m] by auto
qed

subsection \<open>Stored elements and lookups\<close>

lemma found_distinct:
  assumes "table_ok m" "distinct_keys m" "(key, val) \<in> set (iterate m)"
  shows "found m key val"
proof -
  have "key \<in> keys m" using assms(3) by (force simp: keys_def)
  from find_hm_present[OF assms(1) this]
  obtain it where it: "find_hm m key = Some it" "it < end_hm m" "fst (deref m it) = key"
    "deref m it \<in> set (iterate m)" "at m key = Some (Inr (snd (deref m it)))"
    by blast
  have "(key, snd (deref m it)) \<in> set (iterate m)" using it(3,4) by (metis prod.collapse)
  then have "snd (deref m it) = val"
    using assms(2,3) unfolding distinct_keys_def by (metis eq_key_imp_eq_value)
  then show ?thesis using it by (auto simp: found_def)
qed

lemma iterate_add:
  assumes "mset (iterate m') = add_mset e (mset (iterate m))"
  shows "set (iterate m') = Set.insert e (set (iterate m))"
    and "keys m' = Set.insert (fst e) (keys m)"
    and "distinct_keys m' \<longleftrightarrow> fst e \<notin> keys m \<and> distinct_keys m"
proof -
  have eq: "mset (iterate m') = mset (e # iterate m)" using assms by simp
  then show s: "set (iterate m') = Set.insert e (set (iterate m))"
    by (metis list.simps(15) mset_eq_setD)
  then show "keys m' = Set.insert (fst e) (keys m)" by (simp add: keys_def)
  have "mset (map fst (iterate m')) = mset (map fst (e # iterate m))"
    using eq by (metis mset_map)
  then have "distinct (map fst (iterate m')) = distinct (map fst (e # iterate m))"
    by (rule mset_eq_imp_distinct_iff)
  then show "distinct_keys m' \<longleftrightarrow> fst e \<notin> keys m \<and> distinct_keys m"
    by (simp add: distinct_keys_def keys_def)
qed

lemma iterate_same:
  assumes "mset (iterate m') = mset (iterate m)"
  shows "set (iterate m') = set (iterate m)" and "distinct_keys m' = distinct_keys m"
proof -
  show "set (iterate m') = set (iterate m)" using assms by (rule mset_eq_setD)
  have "mset (map fst (iterate m')) = mset (map fst (iterate m))"
    using assms by (metis mset_map)
  then show "distinct_keys m' = distinct_keys m"
    unfolding distinct_keys_def by (rule mset_eq_imp_distinct_iff)
qed

lemma insert_all_append:
  "insert_all m (xs @ ys) = Option.bind (insert_all m xs) (\<lambda>m'. insert_all m' ys)"
  by (induction xs arbitrary: m) (simp_all add: bind_assoc)

lemma insert_all_spec:
  assumes "table_ok m" "distinct_keys m" "distinct (map fst es)" "fst ` set es \<inter> keys m = {}"
  shows "\<exists>m'. insert_all m es = Some m' \<and> table_ok m' \<and> distinct_keys m' \<and>
           hash_m m' = hash_m m \<and> mset (iterate m') = mset (iterate m) + mset es \<and>
           element_count_m m' = element_count_m m + length es \<and>
           ((element_count_m m + length es) * 100 < MAX_LOAD_FACTOR * size_m m + 100 \<longrightarrow>
              size_m m' = size_m m)"
  using assms
proof (induction es arbitrary: m)
  case Nil
  then show ?case by simp
next
  case (Cons e es)
  have ne: "fst e \<notin> keys m" using Cons.prems(4) by auto
  from insert_hm_absent[OF Cons.prems(1) ne]
  obtain m1 where m1: "insert_hm m e = Some m1" "table_ok m1" "hash_m m1 = hash_m m"
    "size_m m1 = (if IsCoolLoad m (size_m m) MAX_LOAD_FACTOR then size_m m else size_m m * 4)"
    "element_count_m m1 = element_count_m m + 1"
    "mset (iterate m1) = add_mset e (mset (iterate m))"
    by blast
  note ia = iterate_add[OF m1(6)]
  have d1: "distinct_keys m1" using ia(3) ne Cons.prems(2) by simp
  have k1: "fst ` set es \<inter> keys m1 = {}"
    using Cons.prems(3,4) by (auto simp: ia(2))
  have "distinct (map fst es)" using Cons.prems(3) by simp
  from Cons.IH[OF m1(2) d1 this k1]
  obtain m' where m': "insert_all m1 es = Some m'" "table_ok m'" "distinct_keys m'"
    "hash_m m' = hash_m m1" "mset (iterate m') = mset (iterate m1) + mset es"
    "element_count_m m' = element_count_m m1 + length es"
    "(element_count_m m1 + length es) * 100 < MAX_LOAD_FACTOR * size_m m1 + 100 \<longrightarrow>
       size_m m' = size_m m1"
    by blast
  have "insert_all m (e # es) = Some m'" using m1(1) m'(1) by simp
  moreover have "mset (iterate m') = mset (iterate m) + mset (e # es)"
    using m'(5) m1(6) by simp
  moreover have "element_count_m m' = element_count_m m + length (e # es)"
    using m'(6) m1(5) by simp
  moreover have "size_m m' = size_m m"
    if "(element_count_m m + length (e # es)) * 100 < MAX_LOAD_FACTOR * size_m m + 100"
  proof -
    have "IsCoolLoad m (size_m m) MAX_LOAD_FACTOR" using that by (simp add: IsCoolLoad_def)
    then have "size_m m1 = size_m m" using m1(4) by simp
    then show ?thesis using m'(7) that m1(5) by simp
  qed
  ultimately show ?case using m'(2,3,4) m1(3) by simp
qed

subsection \<open>Insertions into a fresh table\<close>

lemma insert_all_reachable: "reachable m \<Longrightarrow> insert_all m es = Some m' \<Longrightarrow> reachable m'"
proof (induction es arbitrary: m)
  case Nil
  then show ?case by simp
next
  case (Cons e es)
  then show ?case by (auto simp: bind_eq_Some_conv intro: reachable.insert)
qed

lemma HashMap_distinct_keys: "distinct_keys (HashMap hash)"
  by (simp add: distinct_keys_def HashMap_fields)

lemma HashMap_keys: "keys (HashMap hash) = {}"
  by (simp add: keys_def HashMap_fields)

lemma fresh_inserts:
  assumes "distinct (map fst es)"
  shows "\<exists>m. insert_all (HashMap hash) es = Some m \<and> reachable m \<and> table_ok m \<and>
           distinct_keys m \<and> hash_m m = hash \<and> mset (iterate m) = mset es \<and>
           element_count_m m = length es \<and>
           (length es * 100 < MAX_LOAD_FACTOR * DEFAULT_SIZE + 100 \<longrightarrow> size_m m = DEFAULT_SIZE)"
proof -
  have "fst ` set es \<inter> keys (HashMap hash) = {}" by (simp add: HashMap_keys)
  from insert_all_spec[OF HashMap_table_ok HashMap_distinct_keys assms this]
  obtain m where m: "insert_all (HashMap hash) es = Some m" "table_ok m" "distinct_keys m"
    "hash_m m = hash" "mset (iterate m) = mset es" "element_count_m m = length es"
    "length es * 100 < MAX_LOAD_FACTOR * DEFAULT_SIZE + 100 \<longrightarrow> size_m m = DEFAULT_SIZE"
    by (auto simp: HashMap_fields)
  moreover have "reachable m" using reachable.default m(1) by (rule insert_all_reachable)
  ultimately show ?thesis by blast
qed

lemma HashMap_range_spec:
  "\<exists>m. HashMap_range elements hash = Some m \<and> reachable m \<and>
        mset (iterate m) = mset elements \<and>
        (distinct_keys m \<longleftrightarrow> distinct (map fst elements))"
proof -
  from insert_queue_spec[OF HashMap_table_ok, of elements hash]
  obtain m where m: "HashMap_range elements hash = Some m" "mset (iterate m) = mset elements"
    by (auto simp: HashMap_range_def HashMap_fields)
  have "mset (map fst (iterate m)) = mset (map fst elements)" using m(2) by (metis mset_map)
  then have "distinct (map fst (iterate m)) = distinct (map fst elements)"
    by (rule mset_eq_imp_distinct_iff)
  then show ?thesis using m reachable.range[OF m(1)] by (auto simp: distinct_keys_def)
qed

text \<open>
  Every public member function keeps the keys distinct. Of the constructors, the two
  from a sequence do so only for a sequence without a repeated key (\<open>HashMap_range_spec\<close>).
\<close>

lemma distinct_keys_preserved:
  assumes "reachable m" "distinct_keys m"
  shows "insert_hm m element = Some m' \<Longrightarrow> distinct_keys m'"
    and "erase m key = Some m' \<Longrightarrow> distinct_keys m'"
    and "index_op m key = Some (m', i) \<Longrightarrow> distinct_keys m'"
    and "distinct_keys (assign m i val)"
    and "clear m = Some m' \<Longrightarrow> distinct_keys m'"
proof -
  have t: "table_ok m" using assms(1) by (rule reachable_table_ok)
  show "distinct_keys m'" if "insert_hm m element = Some m'"
  proof (cases "fst element \<in> keys m")
    case True
    then show ?thesis using insert_hm_present[OF t True] that assms(2) by simp
  next
    case False
    from insert_hm_absent[OF t False] that
    have "mset (iterate m') = add_mset element (mset (iterate m))" by auto
    from iterate_add(3)[OF this] show ?thesis using False assms(2) by simp
  qed
  show "distinct_keys m'" if "erase m key = Some m'"
  proof (cases "key \<in> keys m")
    case True
    from erase_present[OF t True] that
    obtain val where "add_mset (key, val) (mset (iterate m')) = mset (iterate m)" by auto
    from iterate_add(3)[OF this[symmetric]] show ?thesis using assms(2) by simp
  next
    case False
    then show ?thesis using erase_absent[OF t False] that assms(2) by simp
  qed
  show "distinct_keys m'" if "index_op m key = Some (m', i)"
  proof (cases "key \<in> keys m")
    case True
    then show ?thesis using index_op_spec[OF t, of key] that assms(2) by auto
  next
    case False
    then have "mset (iterate m') = add_mset (key, default) (mset (iterate m))"
      using index_op_spec[OF t, of key] that by auto
    from iterate_add(3)[OF this] show ?thesis using False assms(2) by simp
  qed
  show "distinct_keys (assign m i val)"
    using assms(2) by (simp add: distinct_keys_def assign_fields)
  show "distinct_keys m'" if "clear m = Some m'"
    using clear_spec[OF t] that by (auto simp: distinct_keys_def)
qed

lemma iteration_keys_found:
  assumes "reachable m"
  shows "set (map fst (iterate m)) = {key. \<exists>it. find_hm m key = Some it \<and> it \<noteq> end_hm m}"
    and "length (iterate m) = size_hm m"
proof -
  have t: "table_ok m" using assms by (rule reachable_table_ok)
  have "(\<exists>it. find_hm m key = Some it \<and> it \<noteq> end_hm m) \<longleftrightarrow> key \<in> keys m" for key
    using find_hm_present[OF t, of key] find_hm_absent[OF t, of key] by (cases "key \<in> keys m") auto
  then show "set (map fst (iterate m)) = {key. \<exists>it. find_hm m key = Some it \<and> it \<noteq> end_hm m}"
    by (auto simp: keys_def)
  show "length (iterate m) = size_hm m"
    using t by (simp add: iterate_eq size_hm_def table_ok_def wf_struct_def)
qed

subsection \<open>The reference that \<^verbatim>\<open>operator[]\<close> returns\<close>

text \<open>The index that \<open>RobinHoodGetKeyIndex\<close> returns is the slot of the new element.\<close>

lemma RobinHood_loop_answer:
  assumes f: "f < n" and i: "i < n"
  shows "size_m m = n \<Longrightarrow> length (data_m m) = n \<Longrightarrow>
     (case answer_i of None \<Rightarrow> to_insert = e
      | Some a \<Rightarrow> a < n \<and> \<not> free_places_m m ! a \<and> data_m m ! a = e \<and>
                 dist n i f < dist n a f) \<Longrightarrow>
     free_places_m m ! f \<Longrightarrow>
     RobinHood_loop m to_insert current_psl answer_i i =
       Some (m', to_insert', current_psl', answer_i', i') \<Longrightarrow>
     (case answer_i' of None \<Rightarrow> to_insert' = e
      | Some a \<Rightarrow> a < n \<and> \<not> free_places_m m ! a \<and> data_m m' ! a = e)"
  using f i
proof (induction arbitrary: m to_insert current_psl answer_i rule: advance_induct)
  case free
  from free.prems(5) have "m' = m" "to_insert' = to_insert" "answer_i' = answer_i"
    using free.prems(4) by (subst (asm) RobinHood_loop.simps, simp)+
  then show ?case using free.prems(3) by (auto split: option.splits)
next
  case (step j)
  show ?case
  proof (cases "free_places_m m ! j")
    case True
    from step.prems(5) have "m' = m" "to_insert' = to_insert" "answer_i' = answer_i"
      using True by (subst (asm) RobinHood_loop.simps, simp)+
    then show ?thesis using step.prems(3) by (auto split: option.splits)
  next
    case occ: False
    have d: "dist n (advance n j) f < dist n j f"
      using step.hyps f by (intro dist_advance) simp_all
    show ?thesis
    proof (cases "psl_m m ! j < current_psl")
      case True
      let ?m1 = "m\<lparr>data_m := (data_m m)[j := to_insert],
                     psl_m := (psl_m m)[j := current_psl]\<rparr>"
      let ?a1 = "if answer_i = None then Some j else answer_i"
      have loop: "RobinHood_loop ?m1 (data_m m ! j) (psl_m m ! j + 1) ?a1 (advance n j) =
          Some (m', to_insert', current_psl', answer_i', i')"
        using step.prems(5) occ True step.prems(1)
        by (subst (asm) RobinHood_loop.simps) simp
      have pre: "case ?a1 of None \<Rightarrow> data_m m ! j = e
          | Some a \<Rightarrow> a < n \<and> \<not> free_places_m ?m1 ! a \<and> data_m ?m1 ! a = e \<and>
                      dist n (advance n j) f < dist n a f"
      proof (cases answer_i)
        case None
        then show ?thesis using step.prems(2,3) step.hyps(1) occ d by simp
      next
        case (Some a)
        then have a: "a < n" "\<not> free_places_m m ! a" "data_m m ! a = e"
          "dist n j f < dist n a f"
          using step.prems(3) by simp_all
        then have "a \<noteq> j" by auto
        then show ?thesis using Some a d by simp
      qed
      from step.IH[OF _ _ pre _ loop] show ?thesis
        using step.prems(1,2,4) by (auto split: option.splits)
    next
      case False
      have loop: "RobinHood_loop m to_insert (current_psl + 1) answer_i (advance n j) =
          Some (m', to_insert', current_psl', answer_i', i')"
        using step.prems(5) occ False step.prems(1)
        by (subst (asm) RobinHood_loop.simps) simp
      have pre: "case answer_i of None \<Rightarrow> to_insert = e
          | Some a \<Rightarrow> a < n \<and> \<not> free_places_m m ! a \<and> data_m m ! a = e \<and>
                      dist n (advance n j) f < dist n a f"
        using step.prems(3) d by (auto split: option.splits)
      from step.IH[OF step.prems(1,2) pre step.prems(4) loop] show ?thesis .
    qed
  qed
qed

lemma RobinHoodGetKeyIndex_answer:
  assumes wf: "wf_struct m" and c: "element_count_m m < size_m m" and p: "probe_ok m"
    and r: "RobinHoodGetKeyIndex m key val = Some (m', a)"
  shows "a < size_m m' \<and> \<not> free_places_m m' ! a \<and> data_m m' ! a = (key, val)"
proof -
  obtain f where f: "f < size_m m" "free_places_m m ! f"
    using free_slot_exists[OF wf c] by blast
  have h: "home m key < size_m m" using wf by (simp add: home_less wf_struct_size_pos)
  have len: "length (data_m m) = size_m m" "length (free_places_m m) = size_m m"
    using wf by (simp_all add: wf_struct_def)
  have "carried_ok m (add_mset (key, val) (mset (iterate m))) m (key, val) (home m key)"
    using p unfolding carried_ok_def by (auto simp: same_frame_refl intro: exI[of _ 0])
  from RobinHood_loop_spec[OF wf f h this, of 1 None]
  obtain m1 ti cp ans i1 where
    loop: "RobinHood_loop m (key, val) 1 None (home m key) = Some (m1, ti, cp, ans, i1)"
    and c1: "carried_ok m (add_mset (key, val) (mset (iterate m))) m1 ti i1"
    and i1: "i1 < size_m m" "free_places_m m ! i1"
    by blast
  from c1 have sf: "same_frame m m1" by (simp add: carried_ok_def)
  have eqs: "size_m m1 = size_m m" "free_places_m m1 = free_places_m m"
    "length (data_m m1) = size_m m"
    using sf len by (simp_all add: same_frame_def)
  have ans: "case ans of None \<Rightarrow> ti = (key, val)
      | Some a \<Rightarrow> a < size_m m \<and> \<not> free_places_m m ! a \<and> data_m m1 ! a = (key, val)"
    using RobinHood_loop_answer[OF f(1) h refl len(1) _ f(2) loop, of "(key, val)"] by simp
  have m': "m' = InsertByIndex m1 i1 (fst ti) (snd ti) cp"
    and a: "a = (case ans of None \<Rightarrow> i1 | Some a \<Rightarrow> a)"
    using r loop by (simp_all add: RobinHoodGetKeyIndex_def home_def)
  have fields: "size_m m' = size_m m" "free_places_m m' = (free_places_m m)[i1 := False]"
    "data_m m' = (data_m m1)[i1 := ti]"
    using i1 eqs by (simp_all add: m' InsertByIndex_def)
  show ?thesis
  proof (cases ans)
    case None
    then show ?thesis using ans a i1 eqs len by (simp add: fields)
  next
    case (Some b)
    then have b: "b < size_m m" "\<not> free_places_m m ! b" "data_m m1 ! b = (key, val)"
      using ans by simp_all
    then have "b \<noteq> i1" using i1 by auto
    then show ?thesis using Some a b by (simp add: fields)
  qed
qed

lemma InsertElement_answer:
  assumes "table_ok m" "InsertElement m key val = Some (m', a)"
  shows "a < size_m m' \<and> \<not> free_places_m m' ! a \<and> data_m m' ! a = (key, val)"
proof (cases "IsCoolLoad m (size_m m) MAX_LOAD_FACTOR")
  case True
  from assms(1) have wf: "wf_struct m" and p: "probe_ok m" by (simp_all add: table_ok_def)
  show ?thesis
    using RobinHoodGetKeyIndex_answer[OF wf cool_count_less[OF True] p] assms(2) True
    by (simp add: InsertElement_cool)
next
  case False
  from Rebuild_spec[OF assms(1)]
  obtain mr where mr: "Rebuild m = Some mr" "table_ok mr" by blast
  from mr(2) have wf: "wf_struct mr" and p: "probe_ok mr" by (simp_all add: table_ok_def)
  have "RobinHoodGetKeyIndex mr key val = Some (m', a)"
    using assms(2) False mr(1) by (simp add: InsertElement_Rebuild)
  with wf table_ok_count_less[OF mr(2)] p show ?thesis by (rule RobinHoodGetKeyIndex_answer)
qed

text \<open>
  \<^verbatim>\<open>operator[]\<close> returns a reference into the slot of the key, which is occupied: a write
  through it is an \<open>assign\<close> to an occupied slot. For a key that was not stored the value
  there is \<^verbatim>\<open>ValueType()\<close>.
\<close>

lemma index_op_slot:
  assumes "reachable m" "index_op m key = Some (m', i)"
  shows "i < size_m m' \<and> \<not> free_places_m m' ! i \<and> fst (data_m m' ! i) = key \<and>
         (key \<notin> keys m \<longrightarrow> snd (data_m m' ! i) = default)"
proof -
  have t: "table_ok m" using assms(1) by (rule reachable_table_ok)
  from GetKeyIndex_table_ok[OF t, of key]
  obtain r where r: "GetKeyIndex m key = Some r" "r < size_m m"
    "if key \<in> keys m then \<not> free_places_m m ! r \<and> fst (data_m m ! r) = key
     else free_places_m m ! r" by blast
  show ?thesis
  proof (cases "key \<in> keys m")
    case True
    then show ?thesis using r assms(2) by (auto simp: index_op_def)
  next
    case False
    then have "InsertElement m key default = Some (m', i)"
      using r assms(2) by (simp add: index_op_def)
    from InsertElement_answer[OF t this] show ?thesis by simp
  qed
qed

subsection \<open>A run of the model\<close>

text \<open>
  With the identity hash the keys 1, 65, 129 and 193 have the home slot 1 of the 64 slots.
  Three of them are inserted, the middle one of the chain is erased and the fourth is
  inserted: the model is evaluated on this input.
\<close>

lemma collision_chain_scenario:
  "Option.bind (insert_all (HashMap (\<lambda>k. k)) [(1::nat, 10::nat), (65, 20), (129, 30)]) (\<lambda>m.
   Option.bind (erase m 65) (\<lambda>m'.
   Option.bind (insert_hm m' (193, 40)) (\<lambda>m''.
     Some (map (at m'') [1, 65, 129, 193], find_hm m'' 65 = Some (end_hm m''), size_hm m'',
           iterate m'')))) =
   Some ([Some (Inr 10), Some (Inl NotFoundError), Some (Inr 30), Some (Inr 40)], True, 3,
         [(1, 10), (129, 30), (193, 40)])"
  by code_simp

section \<open>Claims\<close>

text \<open>
  C1 (round trip). A fresh table is \<open>HashMap hash\<close>, for any hash function. After
  \<^verbatim>\<open>insert\<close> has been called for each element of a list whose keys are pairwise distinct,
  every element of the list is found: \<^verbatim>\<open>find\<close> returns an iterator before \<^verbatim>\<open>end()\<close>
  that points to the key with the value it was inserted with, and \<^verbatim>\<open>at\<close> returns that
  value. All the calls return.
\<close>

theorem C1_inserted_keys_found:
  "distinct (map fst es) \<Longrightarrow>
     \<exists>m. insert_all (HashMap hash) es = Some m \<and> (\<forall>(key, val) \<in> set es. found m key val)"
proof -
  assume "distinct (map fst es)"
  from fresh_inserts[OF this, of hash]
  obtain m where m: "insert_all (HashMap hash) es = Some m" "table_ok m" "distinct_keys m"
    "mset (iterate m) = mset es" by blast
  have "set (iterate m) = set es" using m(4) by (rule mset_eq_setD)
  then have "\<forall>(key, val) \<in> set es. found m key val"
    using found_distinct[OF m(2,3)] by auto
  then show ?thesis using m(1) by blast
qed

theorem C1_witness:
  "distinct (map fst [(1::nat, 10::nat), (2, 20)]) \<and>
   (\<exists>m. insert_all (HashMap (\<lambda>k. k)) [(1::nat, 10::nat), (2, 20)] = Some m \<and>
        found m 1 10 \<and> found m 2 20)"
  using C1_inserted_keys_found[of "[(1::nat, 10::nat), (2, 20)]" "\<lambda>k. k"] by simp

text \<open>
  C2 (erase, then find: after \<^verbatim>\<open>erase(key)\<close>, \<^verbatim>\<open>find(key)\<close> is \<^verbatim>\<open>end()\<close>, in every
  table). The constructor from a sequence stores a key that the sequence repeats in two
  slots. In the table built from \<open>(1, 10), (1, 20)\<close>, \<^verbatim>\<open>erase(1)\<close> removes the first
  of them and \<^verbatim>\<open>FixPosition\<close> puts the second back: \<^verbatim>\<open>size()\<close> goes from 2 to 1 and
  \<^verbatim>\<open>find(1)\<close> is the iterator 0, which is not \<^verbatim>\<open>end()\<close>.
\<close>

theorem C2_erase_duplicate_key_still_found:
  "Option.bind (HashMap_range [(1::nat, 10::nat), (1, 20)] (\<lambda>k. k)) (\<lambda>m.
   Option.bind (erase m 1) (\<lambda>m'.
     Some (size_hm m, size_hm m', find_hm m' 1, end_hm m', iterate m'))) =
   Some (2, 1, Some 0, 1, [(1, 20)])"
  by code_simp

text \<open>
  What holds of \<^verbatim>\<open>erase\<close> in a reachable table that stores no key twice: it returns;
  afterwards \<^verbatim>\<open>find(key)\<close> is \<^verbatim>\<open>end()\<close>; \<^verbatim>\<open>size()\<close> has gone down by exactly one when
  the key was stored and has not changed otherwise; and every element with another key is
  found afterwards, with its value. The second lemma applies it to a chain of three keys
  with one home slot, of which the middle one is erased.
\<close>

lemma erase_then_find_distinct_keys:
  assumes "reachable m" "distinct_keys m"
  shows "\<exists>m'. erase m key = Some m' \<and> find_hm m' key = Some (end_hm m') \<and>
           (if key \<in> keys m then Suc (size_hm m') = size_hm m else size_hm m' = size_hm m) \<and>
           (\<forall>(k, v) \<in> set (iterate m). k \<noteq> key \<longrightarrow> found m' k v)"
proof (cases "key \<in> keys m")
  case True
  have t: "table_ok m" using assms(1) by (rule reachable_table_ok)
  from erase_present[OF t True]
  obtain m' val where m': "erase m key = Some m'" "table_ok m'"
    "Suc (element_count_m m') = element_count_m m"
    "add_mset (key, val) (mset (iterate m')) = mset (iterate m)"
    by blast
  note ia = iterate_add[OF m'(4)[symmetric]]
  have d: "distinct_keys m'" and nk: "key \<notin> keys m'" using ia(3) assms(2) by simp_all
  have "find_hm m' key = Some (end_hm m')" using m'(2) nk by (rule find_hm_absent)
  moreover have "found m' k v" if "(k, v) \<in> set (iterate m)" "k \<noteq> key" for k v
  proof -
    have "(k, v) \<in> set (iterate m')" using that ia(1) by auto
    with m'(2) d show ?thesis by (rule found_distinct)
  qed
  ultimately show ?thesis using True m'(1,3) by (auto simp: size_hm_def)
next
  case False
  have t: "table_ok m" using assms(1) by (rule reachable_table_ok)
  have "erase m key = Some m" using t False by (rule erase_absent)
  moreover have "find_hm m key = Some (end_hm m)" using t False by (rule find_hm_absent)
  moreover have "found m k v" if "(k, v) \<in> set (iterate m)" for k v
    using t assms(2) that by (rule found_distinct)
  ultimately show ?thesis using False by auto
qed

lemma erase_then_find_collision_chain:
  "\<exists>m. insert_all (HashMap (\<lambda>k. k)) [(1::nat, 10::nat), (65, 20), (129, 30)] = Some m \<and>
       reachable m \<and> distinct_keys m \<and> set (iterate m) = {(1, 10), (65, 20), (129, 30)} \<and>
       (\<exists>m'. erase m 65 = Some m' \<and> find_hm m' 65 = Some (end_hm m') \<and>
             Suc (size_hm m') = size_hm m \<and> found m' 1 10 \<and> found m' 129 30)"
proof -
  have "distinct (map fst [(1::nat, 10::nat), (65, 20), (129, 30)])" by simp
  from fresh_inserts[OF this, of "\<lambda>k. k"]
  obtain m where m: "insert_all (HashMap (\<lambda>k. k)) [(1::nat, 10::nat), (65, 20), (129, 30)] = Some m"
    "reachable m" "distinct_keys m" "mset (iterate m) = mset [(1, 10), (65, 20), (129, 30)]"
    by blast
  have s: "set (iterate m) = {(1, 10), (65, 20), (129, 30)}"
    using mset_eq_setD[OF m(4)] by simp
  then have k: "keys m = {1, 65, 129}" by (simp add: keys_def)
  from erase_then_find_distinct_keys[OF m(2,3), of 65] s k m show ?thesis by auto
qed

text \<open>
  C3 (insert never overwrites). In a reachable table, \<^verbatim>\<open>insert\<close> of an element whose key
  is stored returns the table as it was: the stored value, \<^verbatim>\<open>size()\<close> and every other
  member are unchanged.
\<close>

theorem C3_insert_present_noop:
  "reachable m \<Longrightarrow> key \<in> keys m \<Longrightarrow> insert_hm m (key, val) = Some m"
  using insert_hm_present[of m "(key, val)"] by (simp add: reachable_table_ok)

theorem C3_witness:
  "\<exists>m. insert_hm (HashMap (\<lambda>k. k)) (1::nat, 10::nat) = Some m \<and> reachable m \<and> 1 \<in> keys m \<and>
       insert_hm m (1, 20) = Some m \<and> found m 1 10"
proof -
  have "distinct (map fst [(1::nat, 10::nat)])" by simp
  from fresh_inserts[OF this, of "\<lambda>k. k"]
  obtain m where m: "insert_all (HashMap (\<lambda>k. k)) [(1::nat, 10::nat)] = Some m"
    "reachable m" "table_ok m" "distinct_keys m" "mset (iterate m) = mset [(1, 10)]"
    by blast
  have s: "set (iterate m) = {(1, 10)}" using mset_eq_setD[OF m(5)] by simp
  then have k: "1 \<in> keys m" by (simp add: keys_def)
  have "found m 1 10" using m(3,4) s by (intro found_distinct) simp_all
  moreover have "insert_hm (HashMap (\<lambda>k. k)) (1::nat, 10::nat) = Some m"
    using m(1) by (simp add: bind_eq_Some_conv)
  ultimately show ?thesis using C3_insert_present_noop[OF m(2) k, of 20] m(2) k by blast
qed

text \<open>
  C4 (resize: after \<^verbatim>\<open>Rebuild\<close> every key has the value it had, and the element count
  is unchanged). The constructor from a sequence stores a key that the sequence repeats
  in two slots. In the table built from \<open>(5, 50), (1, 10), (1, 20)\<close>, \<^verbatim>\<open>erase(5)\<close> swaps
  the last entry of \<^verbatim>\<open>element_positions_\<close> to the front, so iteration yields \<open>(1, 20)\<close>
  before \<open>(1, 10)\<close> while \<^verbatim>\<open>at(1)\<close> is 10. \<^verbatim>\<open>Rebuild\<close> inserts in that order:
  afterwards \<^verbatim>\<open>at(1)\<close> is 20. The element count is 2 before and after.
\<close>

theorem C4_Rebuild_duplicate_key_changes_value:
  "Option.bind (HashMap_range [(5::nat, 50::nat), (1, 10), (1, 20)] (\<lambda>k. k)) (\<lambda>m0.
   Option.bind (erase m0 5) (\<lambda>m.
   Option.bind (Rebuild m) (\<lambda>m'.
     Some (iterate m, at m 1, size_m m, element_count_m m,
           at m' 1, size_m m', element_count_m m')))) =
   Some ([(1, 20), (1, 10)], Some (Inr 10), 64, 2, Some (Inr 20), 256, 2)"
  by code_simp

text \<open>
  What holds of \<^verbatim>\<open>Rebuild\<close> in a reachable table that stores no key twice: it returns,
  the element count is what it was, and every element that was stored is found with its
  value.
\<close>

lemma Rebuild_keeps_elements_distinct_keys:
  assumes "reachable m" "distinct_keys m"
  shows "\<exists>m'. Rebuild m = Some m' \<and> element_count_m m' = element_count_m m \<and>
           (\<forall>(key, val) \<in> set (iterate m). found m' key val)"
proof -
  have t: "table_ok m" using assms(1) by (rule reachable_table_ok)
  from Rebuild_spec[OF t]
  obtain m' where m': "Rebuild m = Some m'" "table_ok m'"
    "element_count_m m' = element_count_m m" "mset (iterate m') = mset (iterate m)"
    by blast
  note same = iterate_same[OF m'(4)]
  have "found m' key val" if "(key, val) \<in> set (iterate m)" for key val
    using m'(2) assms(2) that same by (intro found_distinct) simp_all
  then show ?thesis using m'(1,3) by auto
qed

lemma Rebuild_keeps_elements_example:
  "\<exists>m. insert_all (HashMap (\<lambda>k. k)) [(1::nat, 10::nat), (65, 20)] = Some m \<and>
       reachable m \<and> distinct_keys m \<and> set (iterate m) = {(1, 10), (65, 20)} \<and>
       (\<exists>m'. Rebuild m = Some m' \<and> element_count_m m' = element_count_m m \<and>
             found m' 1 10 \<and> found m' 65 20)"
proof -
  have "distinct (map fst [(1::nat, 10::nat), (65, 20)])" by simp
  from fresh_inserts[OF this, of "\<lambda>k. k"]
  obtain m where m: "insert_all (HashMap (\<lambda>k. k)) [(1::nat, 10::nat), (65, 20)] = Some m"
    "reachable m" "distinct_keys m" "mset (iterate m) = mset [(1, 10), (65, 20)]"
    by blast
  have s: "set (iterate m) = {(1, 10), (65, 20)}" using mset_eq_setD[OF m(4)] by simp
  from Rebuild_keeps_elements_distinct_keys[OF m(2,3)] s m show ?thesis by auto
qed

text \<open>
  C5 (load after an insert). The claim is that \<open>element_count * 100 < 80 * capacity\<close>
  holds after every \<^verbatim>\<open>insert\<close>. \<^verbatim>\<open>InsertElement\<close> tests the load before it places the
  element, so 52 insertions into a fresh table of 64 slots leave 52 elements:
  \<open>5200 < 5120\<close> is false. What holds after every \<^verbatim>\<open>insert\<close>
  on a reachable table is the bound for one element less:
  \<open>element_count * 100 < 80 * capacity + 100\<close>.
\<close>

theorem C5_load_after_insert:
  "reachable m \<Longrightarrow>
     \<exists>m'. insert_hm m element = Some m' \<and>
          element_count_m m' * 100 < MAX_LOAD_FACTOR * size_m m' + 100"
proof -
  assume r: "reachable m"
  then have t: "table_ok m" by (rule reachable_table_ok)
  obtain m' where m': "insert_hm m element = Some m'"
    using insert_hm_present[OF t, of element] insert_hm_absent[OF t, of element]
    by (cases "fst element \<in> keys m") auto
  have "table_ok m'" using reachable.insert[OF r m'] by (rule reachable_table_ok)
  then show ?thesis using m' by (simp add: table_ok_def load_ok_def)
qed

theorem C5_witness:
  "\<exists>m'. insert_hm (HashMap (\<lambda>k. k)) (1::nat, 10::nat) = Some m' \<and>
        element_count_m m' * 100 < MAX_LOAD_FACTOR * size_m m' + 100"
  using C5_load_after_insert[OF reachable.default, of "\<lambda>k. k" "(1::nat, 10::nat)"] .

theorem C5_counterexample:
  "map_option (\<lambda>m. (element_count_m m, size_m m,
                    element_count_m m * 100 < MAX_LOAD_FACTOR * size_m m))
     (insert_all (HashMap (\<lambda>k. k)) (map (\<lambda>k. (k, k)) [0..<52::nat])) = Some (52, 64, False)"
proof -
  let ?es = "map (\<lambda>k. (k, k)) [0..<52::nat]"
  have "distinct (map fst ?es)" by (simp add: comp_def)
  from fresh_inserts[OF this, of "\<lambda>k. k"]
  obtain m where m: "insert_all (HashMap (\<lambda>k. k)) ?es = Some m"
    "element_count_m m = length ?es"
    "length ?es * 100 < MAX_LOAD_FACTOR * DEFAULT_SIZE + 100 \<longrightarrow> size_m m = DEFAULT_SIZE"
    by blast
  have "element_count_m m = 52" using m(2) by simp
  moreover have "size_m m = 64" using m(3) by (simp add: MAX_LOAD_FACTOR_def DEFAULT_SIZE_def)
  ultimately show ?thesis using m(1) by (simp add: MAX_LOAD_FACTOR_def)
qed

text \<open>
  C6 (iteration completeness: in every reachable table the keys that iteration yields are
  the keys that \<^verbatim>\<open>find\<close> finds, none of them twice, and there are \<^verbatim>\<open>size()\<close> of them).
  The constructor from a sequence calls \<^verbatim>\<open>InsertElement\<close> without the test for a present
  key that \<^verbatim>\<open>insert\<close> makes. From the sequence \<open>(1, 10), (1, 20)\<close> it builds a table of
  size 2 in which iteration yields the key 1 twice; two calls of \<^verbatim>\<open>insert\<close> with the same
  elements build a table of size 1.
\<close>

theorem C6_range_constructor_duplicates:
  "map_option (\<lambda>m. (map fst (iterate m), size_hm m, find_hm m 1))
     (HashMap_range [(1::nat, 10::nat), (1, 20)] (\<lambda>k. k)) = Some ([1, 1], 2, Some 0) \<and>
   map_option (\<lambda>m. (map fst (iterate m), size_hm m, find_hm m 1))
     (insert_all (HashMap (\<lambda>k. k)) [(1::nat, 10::nat), (1, 20)]) = Some ([1], 1, Some 0)"
  by code_simp

text \<open>
  C7 (\<^verbatim>\<open>at\<close> and NotFoundError). In a reachable table \<^verbatim>\<open>at(key)\<close> returns; it raises
  NotFoundError if and only if no element of the table has the key; otherwise it returns
  a value stored with the key. \<^verbatim>\<open>at\<close> is a \<^verbatim>\<open>const\<close> member and returns no table: the
  table is unchanged. No other member function of the model has an error among its
  results.
\<close>

theorem C7_at_NotFoundError:
  "reachable m \<Longrightarrow>
     (at m key = Some (Inl NotFoundError) \<longleftrightarrow> key \<notin> keys m) \<and>
     (key \<in> keys m \<longrightarrow> (\<exists>val. at m key = Some (Inr val) \<and> (key, val) \<in> set (iterate m)))"
proof -
  assume "reachable m"
  then have t: "table_ok m" by (rule reachable_table_ok)
  show ?thesis
  proof (cases "key \<in> keys m")
    case True
    from find_hm_present[OF t True]
    obtain it where it: "fst (deref m it) = key" "deref m it \<in> set (iterate m)"
      "at m key = Some (Inr (snd (deref m it)))" by blast
    have "(key, snd (deref m it)) \<in> set (iterate m)" using it(1,2) by (metis prod.collapse)
    then show ?thesis using True it(3) by auto
  next
    case False
    then show ?thesis using at_absent[OF t False] by simp
  qed
qed

theorem C7_witness:
  "\<exists>m. insert_hm (HashMap (\<lambda>k. k)) (1::nat, 10::nat) = Some m \<and> reachable m \<and> keys m = {1} \<and>
       at m 1 = Some (Inr 10) \<and> at m 2 = Some (Inl NotFoundError)"
proof -
  have "distinct (map fst [(1::nat, 10::nat)])" by simp
  from fresh_inserts[OF this, of "\<lambda>k. k"]
  obtain m where m: "insert_all (HashMap (\<lambda>k. k)) [(1::nat, 10::nat)] = Some m"
    "reachable m" "mset (iterate m) = mset [(1, 10)]"
    by blast
  have s: "set (iterate m) = {(1, 10)}" using mset_eq_setD[OF m(3)] by simp
  then have k: "keys m = {1}" by (simp add: keys_def)
  have "insert_hm (HashMap (\<lambda>k. k)) (1::nat, 10::nat) = Some m"
    using m(1) by (simp add: bind_eq_Some_conv)
  then show ?thesis
    using C7_at_NotFoundError[OF m(2), of 1] C7_at_NotFoundError[OF m(2), of 2] s k m(2)
    by auto
qed

text \<open>
  C8 (totality). On a reachable table \<^verbatim>\<open>insert\<close>, \<^verbatim>\<open>erase\<close>, \<^verbatim>\<open>find\<close> and
  \<^verbatim>\<open>operator[]\<close> return (their probing loops end): the element count is below the
  capacity, so a free slot exists. For a key that is not stored, \<^verbatim>\<open>erase\<close> leaves the
  table as it is and \<^verbatim>\<open>find\<close> is \<^verbatim>\<open>end()\<close>.
\<close>

theorem C8_operations_total:
  "reachable m \<Longrightarrow>
     (\<exists>m'. insert_hm m element = Some m') \<and> (\<exists>m'. erase m key = Some m') \<and>
     (\<exists>it. find_hm m key = Some it) \<and> (\<exists>m' i. index_op m key = Some (m', i)) \<and>
     element_count_m m < size_m m \<and> (\<exists>f < size_m m. free_places_m m ! f) \<and>
     (key \<notin> keys m \<longrightarrow> erase m key = Some m \<and> find_hm m key = Some (end_hm m))"
proof -
  assume "reachable m"
  then have t: "table_ok m" by (rule reachable_table_ok)
  have c: "element_count_m m < size_m m" using t by (rule table_ok_count_less)
  have "\<exists>m'. insert_hm m element = Some m'"
    using insert_hm_present[OF t, of element] insert_hm_absent[OF t, of element]
    by (cases "fst element \<in> keys m") auto
  moreover have "\<exists>m'. erase m key = Some m'"
    using erase_present[OF t, of key] erase_absent[OF t, of key]
    by (cases "key \<in> keys m") auto
  moreover have "\<exists>it. find_hm m key = Some it"
    using find_hm_present[OF t, of key] find_hm_absent[OF t, of key]
    by (cases "key \<in> keys m") auto
  moreover have "\<exists>m' i. index_op m key = Some (m', i)"
    using index_op_spec[OF t, of key] by blast
  moreover have "\<exists>f < size_m m. free_places_m m ! f"
    using t c by (intro free_slot_exists) (simp add: table_ok_def)
  ultimately show ?thesis using c erase_absent[OF t, of key] find_hm_absent[OF t, of key] by simp
qed

theorem C8_witness:
  "(\<exists>m'. insert_hm (HashMap (\<lambda>k. k)) (1::nat, 10::nat) = Some m') \<and>
   erase (HashMap (\<lambda>k. k) :: (nat, nat) hash_map) 1 = Some (HashMap (\<lambda>k. k)) \<and>
   find_hm (HashMap (\<lambda>k. k) :: (nat, nat) hash_map) 1 = Some (end_hm (HashMap (\<lambda>k. k) :: (nat, nat) hash_map)) \<and>
   (\<exists>m' i. index_op (HashMap (\<lambda>k. k) :: (nat, nat) hash_map) 1 = Some (m', i))"
  using C8_operations_total[OF reachable.default, of "\<lambda>k. k" "(1::nat, 10::nat)" 1]
  by (simp add: HashMap_keys)

text \<open>
  C9 (one hundred insertions). For any hash function, inserting the keys 1 to 100 with
  the value \<open>key * 2\<close> into a fresh table: after the first 52 insertions the capacity is
  still 64 and the load test of \<^verbatim>\<open>InsertElement\<close> fails, so the 53rd insertion calls
  \<^verbatim>\<open>Rebuild\<close>; at the end the capacity is 256, \<^verbatim>\<open>size()\<close> is 100 and \<^verbatim>\<open>at(57)\<close> is 114.
\<close>

theorem C9_hundred_inserts:
  fixes hash :: "int \<Rightarrow> nat"
  shows "\<exists>m52 m.
     insert_all (HashMap hash) (map (\<lambda>k. (k, k * 2)) [1..52]) = Some m52 \<and>
     size_m m52 = 64 \<and> \<not> IsCoolLoad m52 (size_m m52) MAX_LOAD_FACTOR \<and>
     insert_all (HashMap hash) (map (\<lambda>k. (k, k * 2)) [1..100]) = Some m \<and>
     size_m m = 256 \<and> size_hm m = 100 \<and> at m 57 = Some (Inr (114::int))"
proof -
  let ?f = "\<lambda>k::int. (k, k * 2)"
  let ?xs1 = "map ?f [1..52]" and ?e = "?f 53" and ?xs3 = "map ?f [54..100]"
  have split: "map ?f [1..100] = ?xs1 @ ?e # ?xs3"
  proof -
    have "[1..100::int] = [1..52] @ [53..100]" using upto_split1[of 1 53 100] by simp
    also have "[53..100::int] = 53 # [54..100]" using upto_rec1[of 53 100] by simp
    finally show ?thesis by simp
  qed
  have "distinct (map fst ?xs1)" by (simp add: comp_def)
  from fresh_inserts[OF this, of hash]
  obtain m1 where m1: "insert_all (HashMap hash) ?xs1 = Some m1" "table_ok m1"
    "distinct_keys m1" "mset (iterate m1) = mset ?xs1" "element_count_m m1 = length ?xs1"
    "length ?xs1 * 100 < MAX_LOAD_FACTOR * DEFAULT_SIZE + 100 \<longrightarrow> size_m m1 = DEFAULT_SIZE"
    by blast
  have c1: "element_count_m m1 = 52" using m1(5) by simp
  have s1: "size_m m1 = 64" using m1(6) by (simp add: MAX_LOAD_FACTOR_def DEFAULT_SIZE_def)
  have k1: "keys m1 = {1..52}"
    using mset_eq_setD[OF m1(4)] by (simp add: keys_def image_image)
  have nc: "\<not> IsCoolLoad m1 (size_m m1) MAX_LOAD_FACTOR"
    using c1 s1 by (simp add: IsCoolLoad_def MAX_LOAD_FACTOR_def)
  have "fst ?e \<notin> keys m1" using k1 by simp
  from insert_hm_absent[OF m1(2) this]
  obtain m2 where m2: "insert_hm m1 ?e = Some m2" "table_ok m2"
    "size_m m2 = 256" "element_count_m m2 = 53"
    "mset (iterate m2) = add_mset ?e (mset (iterate m1))"
    using nc c1 s1 by auto
  note ia = iterate_add[OF m2(5)]
  have d2: "distinct_keys m2" using ia(3) m1(3) k1 by simp
  have k2: "keys m2 = Set.insert 53 {1..52}" using ia(2) k1 by simp
  have d3: "distinct (map fst ?xs3)" by (simp add: comp_def)
  have "fst ` set ?xs3 \<inter> keys m2 = {}" using k2 by (auto simp: image_image)
  from insert_all_spec[OF m2(2) d2 d3 this]
  obtain m3 where m3: "insert_all m2 ?xs3 = Some m3" "table_ok m3" "distinct_keys m3"
    "mset (iterate m3) = mset (iterate m2) + mset ?xs3"
    "element_count_m m3 = element_count_m m2 + length ?xs3"
    "(element_count_m m2 + length ?xs3) * 100 < MAX_LOAD_FACTOR * size_m m2 + 100 \<longrightarrow>
       size_m m3 = size_m m2"
    by blast
  have "insert_all (HashMap hash) (map ?f [1..100]) = Some m3"
    unfolding split using m1(1) m2(1) m3(1) by (simp add: insert_all_append)
  moreover have "size_m m3 = 256" using m3(6) m2(3,4) by (simp add: MAX_LOAD_FACTOR_def)
  moreover have "size_hm m3 = 100" using m3(5) m2(4) by (simp add: size_hm_def)
  moreover have "at m3 57 = Some (Inr 114)"
  proof -
    have "(57, 114) \<in> set ?xs3" by (simp add: image_iff)
    then have "(57, 114) \<in> set (iterate m3)"
      using m3(4) by (metis mset_eq_setD set_mset_mset union_iff set_mset_union UnI2)
    with m3(2,3) have "found m3 57 114" by (rule found_distinct)
    then show ?thesis by (simp add: found_def)
  qed
  ultimately show ?thesis using m1(1) s1 nc by blast
qed

theorem C9_witness:
  "\<exists>m. insert_all (HashMap (\<lambda>k. nat \<bar>k\<bar>)) (map (\<lambda>k. (k, k * 2)) [1..100]) = Some m \<and>
       size_m m = 256 \<and> size_hm m = 100 \<and> at m 57 = Some (Inr (114::int))"
  using C9_hundred_inserts[of "\<lambda>k. nat \<bar>k\<bar>"] by blast

text \<open>
  C10 (the capacity never decreases). On a reachable table \<^verbatim>\<open>insert\<close> and
  \<^verbatim>\<open>operator[]\<close> return a table whose capacity is at least what it was, \<^verbatim>\<open>erase\<close> and a
  write through a reference leave the capacity as it is, \<^verbatim>\<open>clear\<close> returns the empty
  table with the capacity it had, and \<^verbatim>\<open>Rebuild\<close> multiplies the capacity by 4.
\<close>

theorem C10_capacity_never_decreases:
  "reachable m \<Longrightarrow>
     (\<exists>m'. insert_hm m element = Some m' \<and> size_m m \<le> size_m m') \<and>
     (\<exists>m'. erase m key = Some m' \<and> size_m m' = size_m m) \<and>
     (\<exists>m' i. index_op m key = Some (m', i) \<and> size_m m \<le> size_m m') \<and>
     size_m (assign m j val) = size_m m \<and>
     (\<exists>m'. clear m = Some m' \<and> size_m m' = size_m m \<and> iterate m' = [] \<and> size_hm m' = 0) \<and>
     (\<exists>m'. Rebuild m = Some m' \<and> size_m m' = size_m m * SIZE_INCREASING_ON_REBUILD)"
proof -
  assume "reachable m"
  then have t: "table_ok m" by (rule reachable_table_ok)
  have "\<exists>m'. insert_hm m element = Some m' \<and> size_m m \<le> size_m m'"
    using insert_hm_present[OF t, of element] insert_hm_absent[OF t, of element]
    by (cases "fst element \<in> keys m") (auto split: if_splits)
  moreover have "\<exists>m'. erase m key = Some m' \<and> size_m m' = size_m m"
    using erase_present[OF t, of key] erase_absent[OF t, of key]
    by (cases "key \<in> keys m") auto
  moreover have "\<exists>m' i. index_op m key = Some (m', i) \<and> size_m m \<le> size_m m'"
    using index_op_spec[OF t, of key] by blast
  moreover have "\<exists>m'. clear m = Some m' \<and> size_m m' = size_m m \<and> iterate m' = [] \<and>
      size_hm m' = 0"
    using clear_spec[OF t] by (auto simp: size_hm_def)
  moreover have "\<exists>m'. Rebuild m = Some m' \<and> size_m m' = size_m m * SIZE_INCREASING_ON_REBUILD"
    using Rebuild_spec[OF t] by (auto simp: SIZE_INCREASING_ON_REBUILD_def)
  ultimately show ?thesis by (simp add: assign_fields)
qed

theorem C10_witness:
  "(\<exists>m'. insert_hm (HashMap (\<lambda>k. k)) (1::nat, 10::nat) = Some m' \<and> 64 \<le> size_m m') \<and>
   (\<exists>m'. clear (HashMap (\<lambda>k. k) :: (nat, nat) hash_map) = Some m' \<and> size_m m' = 64) \<and>
   (\<exists>m'. Rebuild (HashMap (\<lambda>k. k) :: (nat, nat) hash_map) = Some m' \<and> size_m m' = 256)"
  using C10_capacity_never_decreases[OF reachable.default, of "\<lambda>k. k" "(1::nat, 10::nat)" 1 0 0]
  by (auto simp add: HashMap_fields DEFAULT_SIZE_def SIZE_INCREASING_ON_REBUILD_def)

end
